theory Spec2Isabelle
  imports Main
begin

section \<open>The simple file system of \<open>src/3/sfs_api.c\<close>\<close>

text \<open>
  A shallow embedding of the mountable file system: the constants and structures of
  \<open>sfs_api.h\<close> and the operations of \<open>sfs_api.c\<close>. The global tables become one
  record that every operation takes and returns. An operation whose C code indexes an
  array outside its bounds has no defined result; it returns \<open>None\<close> there.

  The C integer types: \<open>int\<close> arguments and results are HOL integers, \<open>unsigned int\<close>
  fields and the \<open>uint64_t\<close> read/write pointer are natural numbers, and every
  conversion of the source that can change a value is written out with \<open>to_int32\<close>
  and \<open>mod 2 ^ 32\<close>.
\<close>

subsection \<open>Constants\<close>

definition MAX_FILENAME :: nat where "MAX_FILENAME = 60"
definition BLOCK_SIZE :: nat where "BLOCK_SIZE = 1024"
definition NUM_INODES :: nat where "NUM_INODES = 128"
definition NUM_FILE_INODES :: nat where "NUM_FILE_INODES = NUM_INODES - 1"
definition NUM_DIRECT_POINTERS :: nat where "NUM_DIRECT_POINTERS = 12"

text \<open>\<open>sizeof\<close> of the platform (LP64): \<open>unsigned int\<close> is 4 bytes, an inode and a
  directory entry are 64 bytes each, a bitmap entry is one byte.\<close>

definition PTR_SIZE :: nat where "PTR_SIZE = 4"
definition SIZEOF_INODE :: nat where "SIZEOF_INODE = 64"
definition SIZEOF_DIRENT :: nat where "SIZEOF_DIRENT = 64"
definition SIZEOF_BITMAP_ENTRY :: nat where "SIZEOF_BITMAP_ENTRY = 1"

definition NUM_POINTERS_IN_INDIRECT :: nat where
  "NUM_POINTERS_IN_INDIRECT = BLOCK_SIZE div PTR_SIZE + 1"
definition MAX_DATA_BLOCKS_PER_FILE :: nat where
  "MAX_DATA_BLOCKS_PER_FILE = 12 + NUM_POINTERS_IN_INDIRECT"
definition MAX_DATA_BLOCKS_TOTAL :: nat where
  "MAX_DATA_BLOCKS_TOTAL = NUM_FILE_INODES * MAX_DATA_BLOCKS_PER_FILE"
definition MAX_DATA_BLOCKS_SCALED_DOWN :: nat where
  "MAX_DATA_BLOCKS_SCALED_DOWN = MAX_DATA_BLOCKS_TOTAL div 16"
definition NUM_INODE_BLOCKS :: nat where
  "NUM_INODE_BLOCKS = SIZEOF_INODE * NUM_INODES div BLOCK_SIZE + 1"
definition NUM_DATA_BLOCKS_FOR_DIR :: nat where
  "NUM_DATA_BLOCKS_FOR_DIR = SIZEOF_DIRENT * NUM_FILE_INODES div BLOCK_SIZE + 1"
definition NUM_DATA_BLOCKS_FOR_BITMAP :: nat where
  "NUM_DATA_BLOCKS_FOR_BITMAP =
     (SIZEOF_BITMAP_ENTRY * MAX_DATA_BLOCKS_SCALED_DOWN) div BLOCK_SIZE + 1"
definition NUM_TOTAL_BLOCKS :: nat where
  "NUM_TOTAL_BLOCKS = 1 + NUM_DATA_BLOCKS_FOR_DIR + NUM_INODE_BLOCKS
     + MAX_DATA_BLOCKS_SCALED_DOWN + NUM_DATA_BLOCKS_FOR_BITMAP"
definition DATA_BLOCKS_OFFSET :: nat where
  "DATA_BLOCKS_OFFSET = 1 + NUM_DATA_BLOCKS_FOR_DIR + NUM_INODE_BLOCKS"
definition BITMAP_BLOCK_OFFSET :: nat where
  "BITMAP_BLOCK_OFFSET = DATA_BLOCKS_OFFSET + MAX_DATA_BLOCKS_SCALED_DOWN"

text \<open>The number of entries of the local array
  \<open>unsigned int ptr_buff[NUM_POINTERS_IN_INDIRECT - 1]\<close>, and the bound
  \<open>MAX_DATA_BLOCKS_PER_FILE - 1\<close> of the block-walking loops.\<close>

definition PTR_BUFF_LEN :: nat where "PTR_BUFF_LEN = NUM_POINTERS_IN_INDIRECT - 1"
definition LOOP_BLOCK_LIMIT :: nat where "LOOP_BLOCK_LIMIT = MAX_DATA_BLOCKS_PER_FILE - 1"

text \<open>The spec's \<open>MAX_FILE_BYTES\<close>: 268 blocks of 1024 bytes.\<close>

definition MAX_FILE_BYTES :: nat where "MAX_FILE_BYTES = 268 * 1024"

subsection \<open>Integer conversions\<close>

definition to_int32 :: "int \<Rightarrow> int" where
  \<comment> \<open>conversion to a 32-bit \<open>int\<close>: the value modulo \<open>2 ^ 32\<close>, read as two's complement\<close>
  "to_int32 x = (x + 2 ^ 31) mod 2 ^ 32 - 2 ^ 31"

subsection \<open>Structures\<close>

record superblock_t =
  magic :: nat
  block_size :: nat
  fs_size :: nat
  inode_table_len :: nat
  root_dir_inode :: nat

record inode_t =
  mode :: nat
  link_cnt :: nat
  isize :: nat  \<comment> \<open>the field \<open>size\<close>\<close>
  direct :: "nat list"
  indirect :: nat

record directory_entry_t =
  dmode :: nat  \<comment> \<open>the field \<open>mode\<close>\<close>
  names :: string  \<comment> \<open>the C string held in \<open>char names[MAX_FILENAME]\<close>\<close>

record file_descriptor_t =
  inode :: int
  rwptr :: nat

text \<open>
  The global tables, and the emulated disk as a map from block numbers to blocks. The
  disk model keeps what the file operations read back: data blocks and index blocks.
  The byte images of the inode table, the directory and the bitmap, which the source
  writes to blocks 1 to 17 and 2153 to 2155 after a change, are read only by a remount
  (\<open>mksfs(0)\<close>), which is not modelled; those writes are left out.
\<close>

record sfs =
  super :: superblock_t
  inodes :: "inode_t list"
  fdt :: "file_descriptor_t list"
  root :: "directory_entry_t list"
  free_blocks :: "nat list"
  num_files :: nat
  curr_file :: nat
  disk :: "nat \<Rightarrow> char list"

subsection \<open>C strings and blocks\<close>

definition cstr :: "string \<Rightarrow> string" where
  \<comment> \<open>what \<open>strlen\<close>, \<open>strcmp\<close> and \<open>strcpy\<close> see of a char array: the bytes before the first NUL\<close>
  "cstr xs = takeWhile (\<lambda>c. c \<noteq> CHR 0x00) xs"

definition strlen :: "string \<Rightarrow> nat" where
  "strlen xs = length (cstr xs)"

definition zero_block :: "char list" where
  \<comment> \<open>\<open>char buff[BLOCK_SIZE] = ""\<close>\<close>
  "zero_block = replicate BLOCK_SIZE (CHR 0x00)"

definition rd32 :: "char list \<Rightarrow> nat \<Rightarrow> nat" where
  \<comment> \<open>the \<open>k\<close>-th little-endian \<open>unsigned int\<close> of a block\<close>
  "rd32 b k = of_char (b ! (4 * k)) + 256 * of_char (b ! (4 * k + 1))
     + 65536 * of_char (b ! (4 * k + 2)) + 16777216 * of_char (b ! (4 * k + 3))"

definition wr32 :: "nat \<Rightarrow> char list" where
  "wr32 n = [char_of n, char_of (n div 256), char_of (n div 65536), char_of (n div 16777216)]"

definition load_ptrs :: "char list \<Rightarrow> nat list" where
  \<comment> \<open>\<open>read_blocks(node->indirect, 1, (void*) ptr_buff)\<close>\<close>
  "load_ptrs b = map (rd32 b) [0..<PTR_BUFF_LEN]"

definition store_ptrs :: "nat list \<Rightarrow> char list" where
  \<comment> \<open>the block image of \<open>ptr_buff\<close>\<close>
  "store_ptrs ps = concat (map wr32 ps)"

subsection \<open>Allocation helper\<close>

fun scan_free :: "nat list \<Rightarrow> nat \<Rightarrow> int" where
  "scan_free [] i = - 1"
| "scan_free (x # xs) i = (if x = 0 then int i else scan_free xs (Suc i))"

definition get_free_bitmap_address :: "sfs \<Rightarrow> int" where
  "get_free_bitmap_address s = scan_free (take MAX_DATA_BLOCKS_SCALED_DOWN (free_blocks s)) 0"

subsection \<open>Format\<close>

definition init_super :: superblock_t where
  "init_super = \<lparr>magic = 0xACBD0005, block_size = BLOCK_SIZE,
     fs_size = BLOCK_SIZE * NUM_TOTAL_BLOCKS, inode_table_len = NUM_INODE_BLOCKS,
     root_dir_inode = 0\<rparr>"

definition fresh_disk :: "nat \<Rightarrow> char list" where
  \<comment> \<open>Modelled from the spec: the block device (\<open>disk_emu\<close>) is not part of the sources;
      \<open>init_fresh_disk\<close> is taken to create a disk whose blocks read as zero bytes.\<close>
  "fresh_disk = (\<lambda>_. zero_block)"

definition mksfs_fresh :: "sfs \<Rightarrow> sfs" where
  \<comment> \<open>\<open>mksfs(1)\<close>\<close>
  "mksfs_fresh s = s\<lparr>
     super := init_super,
     inodes := map (\<lambda>i. (inodes s ! i)\<lparr>link_cnt := (if i = 0 then 1 else 0)\<rparr>) [0..<NUM_INODES],
     fdt := map (\<lambda>i. if i = 0 then \<lparr>inode = 0, rwptr = 0\<rparr> else (fdt s ! i)\<lparr>inode := - 1\<rparr>)
              [0..<NUM_INODES],
     root := replicate NUM_FILE_INODES \<lparr>dmode = 0, names = []\<rparr>,
     free_blocks := replicate MAX_DATA_BLOCKS_SCALED_DOWN 0,
     num_files := 0,
     curr_file := 0,
     disk := fresh_disk\<rparr>"

definition boot :: sfs where
  \<comment> \<open>the zero-initialised globals of a new process, before any disk is attached\<close>
  "boot = \<lparr>
     super = \<lparr>magic = 0, block_size = 0, fs_size = 0, inode_table_len = 0, root_dir_inode = 0\<rparr>,
     inodes = replicate NUM_INODES
       \<lparr>mode = 0, link_cnt = 0, isize = 0, direct = replicate NUM_DIRECT_POINTERS 0, indirect = 0\<rparr>,
     fdt = replicate NUM_INODES \<lparr>inode = 0, rwptr = 0\<rparr>,
     root = replicate NUM_FILE_INODES \<lparr>dmode = 0, names = []\<rparr>,
     free_blocks = replicate MAX_DATA_BLOCKS_SCALED_DOWN 0,
     num_files = 0,
     curr_file = 0,
     disk = fresh_disk\<rparr>"

definition fresh :: sfs where
  \<comment> \<open>the file system of a new process after \<open>mksfs(1)\<close>\<close>
  "fresh = mksfs_fresh boot"

subsection \<open>Directory enumeration and size query\<close>

fun nextfilename_loop :: "sfs \<Rightarrow> nat \<Rightarrow> nat list \<Rightarrow> (nat \<times> string) option" where
  \<comment> \<open>the scan of \<open>sfs_getnextfilename\<close>: the slot reached and its name\<close>
  "nextfilename_loop s counter [] = None"
| "nextfilename_loop s counter (i # is) =
     (if dmode (root s ! i) \<noteq> 1 then nextfilename_loop s counter is
      else if counter = curr_file s then Some (i, names (root s ! i))
      else nextfilename_loop s (Suc counter) is)"

definition sfs_getnextfilename :: "sfs \<Rightarrow> string \<Rightarrow> int \<times> string \<times> sfs" where
  "sfs_getnextfilename s fname =
     (case (if num_files s > 0 then nextfilename_loop s 0 [0..<NUM_FILE_INODES] else None) of
        Some (i, nm) \<Rightarrow> (1, nm, s\<lparr>curr_file := (curr_file s + 1) mod 2 ^ 32\<rparr>)
      | None \<Rightarrow> (0, fname, s\<lparr>curr_file := 0\<rparr>))"

fun getfilesize_loop :: "sfs \<Rightarrow> string \<Rightarrow> int \<Rightarrow> nat list \<Rightarrow> int" where
  "getfilesize_loop s path sz [] = sz"
| "getfilesize_loop s path sz (i # is) =
     getfilesize_loop s path
       (if cstr path = names (root s ! i) then to_int32 (int (isize (inodes s ! (i + 1)))) else sz) is"

definition sfs_getfilesize :: "sfs \<Rightarrow> string \<Rightarrow> int" where
  "sfs_getfilesize s path = getfilesize_loop s path (- 1) [0..<NUM_FILE_INODES]"

subsection \<open>Open, close and seek\<close>

fun find_name :: "sfs \<Rightarrow> string \<Rightarrow> nat list \<Rightarrow> nat option" where
  \<comment> \<open>the first directory slot whose name compares equal to \<open>name\<close>\<close>
  "find_name s name [] = None"
| "find_name s name (i # is) =
     (if cstr name = names (root s ! i) then Some i else find_name s name is)"

fun scan_fdt :: "sfs \<Rightarrow> int \<Rightarrow> int \<Rightarrow> nat list \<Rightarrow> int option" where
  \<comment> \<open>the descriptor scan for an existing file: \<open>None\<close> when a descriptor already holds the
      inode (the source returns \<open>-1\<close> at once), else the final \<open>free_fd\<close>\<close>
  "scan_fdt s ino free_fd [] = Some free_fd"
| "scan_fdt s ino free_fd (j # js) =
     (if inode (fdt s ! j) = ino then None
      else scan_fdt s ino (if free_fd = - 1 \<and> inode (fdt s ! j) = - 1 then int j else free_fd) js)"

fun first_free_fd :: "sfs \<Rightarrow> nat list \<Rightarrow> nat option" where
  "first_free_fd s [] = None"
| "first_free_fd s (j # js) = (if inode (fdt s ! j) = - 1 then Some j else first_free_fd s js)"

fun fopen_new :: "sfs \<Rightarrow> string \<Rightarrow> nat list \<Rightarrow> int \<times> sfs" where
  \<comment> \<open>the second loop of \<open>sfs_fopen\<close>: a free inode and a free descriptor for a new file\<close>
  "fopen_new s name [] = (- 1, s)"
| "fopen_new s name (i # is) =
     (if link_cnt (inodes s ! i) = 0 then
        (case first_free_fd s [1..<NUM_INODES] of
           Some j \<Rightarrow>
             (int j, s\<lparr>
                fdt := (fdt s)[j := \<lparr>inode = int i, rwptr = 0\<rparr>],
                num_files := (num_files s + 1) mod 2 ^ 32,
                inodes := (inodes s)[i := (inodes s ! i)\<lparr>link_cnt := 1, mode := 1, isize := 0\<rparr>],
                root := (root s)[i - 1 := \<lparr>dmode = 1, names = cstr name\<rparr>]\<rparr>)
         | None \<Rightarrow> fopen_new s name is)
      else fopen_new s name is)"

definition sfs_fopen :: "sfs \<Rightarrow> string \<Rightarrow> int \<times> sfs" where
  "sfs_fopen s name =
     (if strlen name \<ge> MAX_FILENAME then (- 1, s)
      else case find_name s name [0..<NUM_FILE_INODES] of
        Some i \<Rightarrow>
          (case scan_fdt s (int i + 1) (- 1) [1..<NUM_INODES] of
             None \<Rightarrow> (- 1, s)
           | Some free_fd \<Rightarrow>
               if free_fd = - 1 then (- 1, s)
               else (free_fd, s\<lparr>
                 fdt := (fdt s)[nat free_fd :=
                   \<lparr>inode = int i + 1, rwptr = nat (sfs_getfilesize s name mod 2 ^ 64)\<rparr>],
                 root := (root s)[i := (root s ! i)\<lparr>dmode := 1\<rparr>],
                 inodes := (inodes s)[i + 1 := (inodes s ! (i + 1))\<lparr>link_cnt := 1\<rparr>]\<rparr>))
      | None \<Rightarrow> fopen_new s name [1..<NUM_INODES])"

definition sfs_fclose :: "sfs \<Rightarrow> int \<Rightarrow> int \<times> sfs" where
  "sfs_fclose s fileID =
     (if fileID > 0 \<and> fileID < int NUM_INODES \<and> inode (fdt s ! nat fileID) \<noteq> - 1
      then (0, s\<lparr>fdt := (fdt s)[nat fileID := \<lparr>inode = - 1, rwptr = 0\<rparr>]\<rparr>)
      else (- 1, s))"

definition sfs_fseek :: "sfs \<Rightarrow> int \<Rightarrow> int \<Rightarrow> (int \<times> sfs) option" where
  "sfs_fseek s fileID loc =
     (if fileID > 0 \<and> fileID < int NUM_INODES then
        (let f = fdt s ! nat fileID in
         if inode f = - 1 \<or> inode f = 0 \<or> loc < 0 then Some (- 1, s)
         else if inode f < 0 \<or> int NUM_INODES \<le> inode f then None
           \<comment> \<open>\<open>inodes[f->inode]\<close> is read outside the table\<close>
         else if nat loc > isize (inodes s ! nat (inode f))
               \<or> nat loc \<ge> MAX_DATA_BLOCKS_PER_FILE * BLOCK_SIZE then Some (- 1, s)
         else Some (0, s\<lparr>fdt := (fdt s)[nat fileID := f\<lparr>rwptr := nat loc\<rparr>]\<rparr>))
      else Some (- 1, s))"

subsection \<open>Write\<close>

text \<open>
  The local variables of \<open>sfs_fwrite\<close> that live across iterations of its loop, with
  the global tables. \<open>ptr_buff\<close> starts without contents (the empty list) and is only
  read after \<open>did_load_ptr_buff\<close> is set. The counters are non-negative in the loop and
  kept as natural numbers; \<open>rwptr_size_offset\<close> is signed.
\<close>

record wstate =
  fs :: sfs
  ptr_buff :: "nat list"
  did_load_ptr_buff :: bool
  bytes_written :: nat
  bytes_to_write :: nat
  current_block :: nat
  rwptr_size_offset :: int
  did_write_to_disk :: bool

datatype located =
  Stop wstate  \<comment> \<open>a \<open>break\<close>\<close>
  | Target int "char list" wstate  \<comment> \<open>\<open>bitmap_entry\<close>, \<open>buff\<close> and the state\<close>

definition locate_direct :: "nat \<Rightarrow> wstate \<Rightarrow> located" where
  "locate_direct ino w =
     (let s = fs w; node = inodes s ! ino; p = direct node ! current_block w in
      if p > 0 then Target (to_int32 (int p - int DATA_BLOCKS_OFFSET)) (disk s p) w
      else
        (let k = get_free_bitmap_address s in
         if k = - 1 then Stop w
         else Target k zero_block
           (w\<lparr>fs := s\<lparr>
              free_blocks := (free_blocks s)[nat k := 1],
              inodes := (inodes s)[ino := node\<lparr>direct :=
                (direct node)[current_block w := nat k + DATA_BLOCKS_OFFSET]\<rparr>]\<rparr>\<rparr>)))"

definition alloc_indirect :: "nat \<Rightarrow> wstate \<Rightarrow> wstate option" where
  \<comment> \<open>the index block is allocated when the inode has none; \<open>None\<close> is the \<open>break\<close>\<close>
  "alloc_indirect ino w =
     (let s = fs w; node = inodes s ! ino in
      if indirect node = 0 then
        (let k = get_free_bitmap_address s in
         if k = - 1 then None
         else Some (w\<lparr>
           fs := s\<lparr>
             free_blocks := (free_blocks s)[nat k := 1],
             inodes := (inodes s)[ino := node\<lparr>indirect := nat k + DATA_BLOCKS_OFFSET\<rparr>]\<rparr>,
           ptr_buff := replicate PTR_BUFF_LEN 0,
           did_load_ptr_buff := True\<rparr>))
      else Some w)"

definition locate_ptr :: "nat \<Rightarrow> wstate \<Rightarrow> located" where
  \<comment> \<open>the block of the current position is looked up in \<open>ptr_buff\<close>, or allocated\<close>
  "locate_ptr ino w1 =
     (let ptr_address = current_block w1 - NUM_DIRECT_POINTERS;
          p = ptr_buff w1 ! ptr_address in
      if p > 0 then Target (to_int32 (int p - int DATA_BLOCKS_OFFSET)) (disk (fs w1) p) w1
      else
        (let k = get_free_bitmap_address (fs w1) in
         if k = - 1 then Stop w1
         else Target k zero_block
           (w1\<lparr>
              fs := (fs w1)\<lparr>free_blocks := (free_blocks (fs w1))[nat k := 1]\<rparr>,
              ptr_buff := (ptr_buff w1)[ptr_address := nat k + DATA_BLOCKS_OFFSET]\<rparr>)))"

definition locate_indirect :: "nat \<Rightarrow> wstate \<Rightarrow> located" where
  "locate_indirect ino w =
     (case alloc_indirect ino w of
        None \<Rightarrow> Stop w
      | Some w1 \<Rightarrow> if \<not> did_load_ptr_buff w1 then Stop w1 else locate_ptr ino w1)"

definition write_chunk :: "nat \<Rightarrow> char list \<Rightarrow> int \<Rightarrow> char list \<Rightarrow> wstate \<Rightarrow> (bool \<times> wstate) option" where
  \<comment> \<open>the second half of an iteration: the bytes are copied into \<open>buff\<close>, the block is
      written and the counters advance; \<open>None\<close> is an access out of bounds\<close>
  "write_chunk fd buf bitmap_entry buff w1 =
     (let s = fs w1; f = fdt s ! fd;
          block_offset = rwptr f mod BLOCK_SIZE;
          bytes_count = min (BLOCK_SIZE - block_offset) (bytes_to_write w1) in
      if bytes_count > 0 then
        if length buf < bytes_written w1 + bytes_count then None
          \<comment> \<open>\<open>memcpy\<close> reads past the caller's buffer\<close>
        else if bitmap_entry < 0 \<or> int MAX_DATA_BLOCKS_SCALED_DOWN \<le> bitmap_entry then None
          \<comment> \<open>\<open>free_blocks[bitmap_entry]\<close> is written outside the bitmap\<close>
        else if 2 ^ 31 \<le> rwptr_size_offset w1 + int bytes_count then None
          \<comment> \<open>signed overflow of \<open>rwptr_size_offset\<close>\<close>
        else Some (False, w1\<lparr>
          fs := s\<lparr>
            disk := (disk s)(nat bitmap_entry + DATA_BLOCKS_OFFSET :=
              take block_offset buff @ take bytes_count (drop (bytes_written w1) buf)
                @ drop (block_offset + bytes_count) buff),
            free_blocks := (free_blocks s)[nat bitmap_entry := 1],
            fdt := (fdt s)[fd := f\<lparr>rwptr := rwptr f + bytes_count\<rparr>]\<rparr>,
          rwptr_size_offset := rwptr_size_offset w1 + int bytes_count,
          bytes_to_write := bytes_to_write w1 - bytes_count,
          bytes_written := bytes_written w1 + bytes_count,
          did_write_to_disk := True,
          current_block := (rwptr f + bytes_count) div BLOCK_SIZE\<rparr>)
      else Some (False, w1\<lparr>did_write_to_disk := False\<rparr>))"

definition fwrite_body :: "nat \<Rightarrow> nat \<Rightarrow> char list \<Rightarrow> wstate \<Rightarrow> (bool \<times> wstate) option" where
  \<comment> \<open>one iteration: \<open>None\<close> is an access out of bounds, the flag tells a \<open>break\<close>\<close>
  "fwrite_body fd ino buf w =
     (case (if current_block w < NUM_DIRECT_POINTERS then locate_direct ino w
            else locate_indirect ino w) of
        Stop w1 \<Rightarrow> Some (True, w1\<lparr>did_write_to_disk := False\<rparr>)
      | Target bitmap_entry buff w1 \<Rightarrow> write_chunk fd buf bitmap_entry buff w1)"

definition fwrite_guard :: "wstate \<Rightarrow> bool" where
  "fwrite_guard w \<longleftrightarrow>
     did_write_to_disk w \<and> bytes_to_write w > 0 \<and> current_block w < LOOP_BLOCK_LIMIT"

definition fwrite_measure :: "wstate \<Rightarrow> nat" where
  "fwrite_measure w = (if did_write_to_disk w then Suc (bytes_to_write w) else 0)"

lemma locate_direct_measure:
  "locate_direct ino w = Target be buff w1 \<Longrightarrow>
     bytes_to_write w1 = bytes_to_write w"
  by (auto simp: locate_direct_def Let_def split: if_splits)

lemma locate_indirect_measure:
  "locate_indirect ino w = Target be buff w1 \<Longrightarrow>
     bytes_to_write w1 = bytes_to_write w"
  by (auto simp: locate_indirect_def locate_ptr_def alloc_indirect_def Let_def
      split: if_splits option.splits)

lemma fwrite_body_measure:
  assumes "fwrite_guard w" and "fwrite_body fd ino buf w = Some (False, w')"
  shows "fwrite_measure w' < fwrite_measure w"
proof (cases "if current_block w < NUM_DIRECT_POINTERS then locate_direct ino w
              else locate_indirect ino w")
  case (Stop w1)
  with assms(2) show ?thesis by (simp add: fwrite_body_def)
next
  case (Target be buff w1)
  then have "bytes_to_write w1 = bytes_to_write w"
    by (auto dest: locate_direct_measure locate_indirect_measure split: if_splits)
  with assms Target show ?thesis
    by (auto simp: fwrite_body_def write_chunk_def fwrite_guard_def fwrite_measure_def Let_def
        split: if_splits)
qed

function fwrite_loop :: "nat \<Rightarrow> nat \<Rightarrow> char list \<Rightarrow> wstate \<Rightarrow> wstate option" where
  "fwrite_loop fd ino buf w =
     (if fwrite_guard w then
        (case fwrite_body fd ino buf w of
           None \<Rightarrow> None
         | Some (brk, w') \<Rightarrow> if brk then Some w' else fwrite_loop fd ino buf w')
      else Some w)"
  by pat_completeness auto
termination
  by (relation "measure (\<lambda>(fd, ino, buf, w). fwrite_measure w)")
    (auto dest: fwrite_body_measure)

declare fwrite_loop.simps [simp del]

definition fwrite_finish :: "nat \<Rightarrow> nat \<Rightarrow> wstate \<Rightarrow> sfs" where
  \<comment> \<open>the update of the metadata after the loop\<close>
  "fwrite_finish ino len w =
     (let s = fs w in
      if bytes_to_write w \<noteq> len then
        (let node = inodes s ! ino;
             s1 = (if rwptr_size_offset w > 0
                   then s\<lparr>inodes := (inodes s)[ino := node\<lparr>isize :=
                          nat ((int (isize node) + rwptr_size_offset w) mod 2 ^ 32)\<rparr>]\<rparr>
                   else s)
         in if did_load_ptr_buff w
            then s1\<lparr>disk := (disk s1)(indirect node := store_ptrs (ptr_buff w))\<rparr>
            else s1)
      else s)"

definition sfs_fwrite :: "sfs \<Rightarrow> int \<Rightarrow> char list \<Rightarrow> int \<Rightarrow> (int \<times> sfs) option" where
  "sfs_fwrite s fileID buf len =
     (if len \<le> 0 then Some (0, s)
      else if fileID < 0 \<or> int NUM_INODES \<le> fileID then None
        \<comment> \<open>\<open>fdt[fileID]\<close> is read outside the descriptor table\<close>
      else
        (let f = fdt s ! nat fileID in
         if inode f \<le> 0 then Some (0, s)
         else if int NUM_INODES \<le> inode f then None
           \<comment> \<open>\<open>inodes[f->inode]\<close> is read outside the inode table\<close>
         else
           (let ino = nat (inode f); node = inodes s ! ino in
            if rwptr f > isize node \<or> rwptr f \<ge> MAX_DATA_BLOCKS_PER_FILE * BLOCK_SIZE
            then Some (0, s)
            else
              (case fwrite_loop (nat fileID) ino buf
                 \<lparr>fs = s,
                  ptr_buff = (if indirect node > 0 then load_ptrs (disk s (indirect node)) else []),
                  did_load_ptr_buff = (indirect node > 0),
                  bytes_written = 0,
                  bytes_to_write = nat len,
                  current_block = rwptr f div BLOCK_SIZE,
                  rwptr_size_offset = to_int32 (- (int (isize node) - int (rwptr f))),
                  did_write_to_disk = True\<rparr> of
                 None \<Rightarrow> None
               | Some w \<Rightarrow> Some (int (bytes_written w), fwrite_finish ino (nat len) w)))))"

subsection \<open>Read\<close>

text \<open>
  The variables of the loop of \<open>sfs_fread\<close>: the descriptor's pointer, the caller's
  buffer and the locals. The tables and the disk do not change while reading.
\<close>

record rstate =
  r_rwptr :: nat  \<comment> \<open>\<open>f->rwptr\<close>\<close>
  r_buf :: "char list"  \<comment> \<open>the caller's \<open>buf\<close>\<close>
  bytes_read :: nat
  bytes_to_read :: nat
  r_current_block :: nat
  did_write_to_buf :: bool
  r_ptr_buff :: "nat list"
  r_did_load_ptr_buff :: bool

definition fread_block :: "sfs \<Rightarrow> nat \<Rightarrow> rstate \<Rightarrow> char list option \<times> rstate" where
  \<comment> \<open>the block of the current position, when the inode maps one\<close>
  "fread_block s ino r =
     (let node = inodes s ! ino in
      if r_current_block r < NUM_DIRECT_POINTERS then
        (if direct node ! r_current_block r > 0
         then (Some (disk s (direct node ! r_current_block r)), r)
         else (None, r))
      else
        (let r1 = (if \<not> r_did_load_ptr_buff r \<and> indirect node > 0
                   then r\<lparr>r_ptr_buff := load_ptrs (disk s (indirect node)),
                          r_did_load_ptr_buff := True\<rparr>
                   else r);
             ptr_address = r_current_block r1 - NUM_DIRECT_POINTERS in
         if r_did_load_ptr_buff r1 \<and> r_ptr_buff r1 ! ptr_address > 0
         then (Some (disk s (r_ptr_buff r1 ! ptr_address)), r1)
         else (None, r1)))"

definition fread_body :: "sfs \<Rightarrow> nat \<Rightarrow> rstate \<Rightarrow> rstate option" where
  "fread_body s ino r =
     (case fread_block s ino r of
        (None, r1) \<Rightarrow> Some (r1\<lparr>did_write_to_buf := False\<rparr>)
      | (Some buff, r1) \<Rightarrow>
          (let block_offset = r_rwptr r1 mod BLOCK_SIZE;
               bytes_count = min (BLOCK_SIZE - block_offset) (bytes_to_read r1) in
           if bytes_count > 0 then
             if length (r_buf r1) < bytes_read r1 + bytes_count then None
               \<comment> \<open>\<open>memcpy\<close> writes past the caller's buffer\<close>
             else Some (r1\<lparr>
               r_buf := take (bytes_read r1) (r_buf r1)
                 @ take bytes_count (drop block_offset buff)
                 @ drop (bytes_read r1 + bytes_count) (r_buf r1),
               did_write_to_buf := True,
               bytes_read := bytes_read r1 + bytes_count,
               bytes_to_read := bytes_to_read r1 - bytes_count,
               r_rwptr := r_rwptr r1 + bytes_count,
               r_current_block := (r_rwptr r1 + bytes_count) div BLOCK_SIZE\<rparr>)
           else Some (r1\<lparr>did_write_to_buf := False\<rparr>)))"

definition fread_guard :: "rstate \<Rightarrow> bool" where
  "fread_guard r \<longleftrightarrow>
     did_write_to_buf r \<and> bytes_to_read r > 0 \<and> r_current_block r < LOOP_BLOCK_LIMIT"

definition fread_measure :: "rstate \<Rightarrow> nat" where
  "fread_measure r = (if did_write_to_buf r then Suc (bytes_to_read r) else 0)"

lemma fread_block_measure:
  "fread_block s ino r = (b, r1) \<Longrightarrow> bytes_to_read r1 = bytes_to_read r"
  by (auto simp: fread_block_def Let_def split: if_splits)

lemma fread_body_measure:
  assumes "fread_guard r" and "fread_body s ino r = Some r'"
  shows "fread_measure r' < fread_measure r"
proof (cases "fread_block s ino r")
  case (Pair b r1)
  then have "bytes_to_read r1 = bytes_to_read r"
    by (rule fread_block_measure)
  with assms Pair show ?thesis
    by (cases b)
      (auto simp: fread_body_def fread_guard_def fread_measure_def Let_def split: if_splits)
qed

function fread_loop :: "sfs \<Rightarrow> nat \<Rightarrow> rstate \<Rightarrow> rstate option" where
  "fread_loop s ino r =
     (if fread_guard r then
        (case fread_body s ino r of None \<Rightarrow> None | Some r' \<Rightarrow> fread_loop s ino r')
      else Some r)"
  by pat_completeness auto
termination
  by (relation "measure (\<lambda>(s, ino, r). fread_measure r)") (auto dest: fread_body_measure)

declare fread_loop.simps [simp del]

definition sfs_fread :: "sfs \<Rightarrow> int \<Rightarrow> char list \<Rightarrow> int \<Rightarrow> (int \<times> char list \<times> sfs) option" where
  \<comment> \<open>the result, the caller's buffer and the tables afterwards\<close>
  "sfs_fread s fileID buf len =
     (if len \<le> 0 then Some (0, buf, s)
      else if fileID < 0 \<or> int NUM_INODES \<le> fileID then None
        \<comment> \<open>\<open>fdt[fileID]\<close> is read outside the descriptor table\<close>
      else
        (let f = fdt s ! nat fileID in
         if inode f \<le> 0 then Some (0, buf, s)
         else if int NUM_INODES \<le> inode f then None
           \<comment> \<open>\<open>inodes[f->inode]\<close> is read outside the inode table\<close>
         else
           (let ino = nat (inode f); node = inodes s ! ino in
            if rwptr f \<ge> isize node then Some (0, buf, s)
            else
              (case fread_loop s ino
                 \<lparr>r_rwptr = rwptr f,
                  r_buf = buf,
                  bytes_read = 0,
                  bytes_to_read =
                    nat (min len (to_int32 (int (isize node) - int (rwptr f)))),
                  r_current_block = rwptr f div BLOCK_SIZE,
                  did_write_to_buf = True,
                  r_ptr_buff = [],
                  r_did_load_ptr_buff = False\<rparr> of
                 None \<Rightarrow> None
               | Some r \<Rightarrow>
                   Some (int (bytes_read r), r_buf r,
                     s\<lparr>fdt := (fdt s)[nat fileID := f\<lparr>rwptr := r_rwptr r\<rparr>]\<rparr>)))))"

subsection \<open>Remove\<close>

fun close_first :: "sfs \<Rightarrow> int \<Rightarrow> nat list \<Rightarrow> sfs" where
  \<comment> \<open>the first descriptor bound to the inode is closed\<close>
  "close_first s ino [] = s"
| "close_first s ino (j # js) =
     (if inode (fdt s ! j) = ino then snd (sfs_fclose s (int j)) else close_first s ino js)"

fun remove_scan :: "string \<Rightarrow> int \<times> sfs \<Rightarrow> nat list \<Rightarrow> int \<times> sfs" where
  \<comment> \<open>the directory scan of \<open>sfs_remove\<close>: every matching entry is cleared\<close>
  "remove_scan file (ino, s) [] = (ino, s)"
| "remove_scan file (ino, s) (i # is) =
     (if names (root s ! i) = cstr file then
        remove_scan file
          (int i + 1,
           close_first (s\<lparr>root := (root s)[i := \<lparr>dmode = 0, names = []\<rparr>]\<rparr>) (int i + 1)
             [1..<NUM_INODES]) is
      else remove_scan file (ino, s) is)"

definition free_block :: "sfs \<Rightarrow> nat \<Rightarrow> sfs option" where
  \<comment> \<open>the bitmap byte of a block is cleared and the block is overwritten with zeros;
      \<open>None\<close> when \<open>free_blocks[bitmap_entry]\<close> lies outside the bitmap\<close>
  "free_block s p =
     (let bitmap_entry = to_int32 (int p - int DATA_BLOCKS_OFFSET) in
      if bitmap_entry < 0 \<or> int MAX_DATA_BLOCKS_SCALED_DOWN \<le> bitmap_entry then None
      else Some (s\<lparr>free_blocks := (free_blocks s)[nat bitmap_entry := 0],
                    disk := (disk s)(p := zero_block)\<rparr>))"

fun remove_direct :: "nat \<Rightarrow> sfs \<Rightarrow> nat list \<Rightarrow> sfs option" where
  "remove_direct ino s [] = Some s"
| "remove_direct ino s (i # is) =
     (let n = inodes s ! ino in
      case (if direct n ! i > 0 then free_block s (direct n ! i) else Some s) of
        None \<Rightarrow> None
      | Some s1 \<Rightarrow>
          remove_direct ino
            (s1\<lparr>inodes := (inodes s1)[ino := (inodes s1 ! ino)\<lparr>direct :=
               (direct (inodes s1 ! ino))[i := 0]\<rparr>]\<rparr>) is)"

fun remove_ptrs :: "nat list \<Rightarrow> sfs \<Rightarrow> nat list \<Rightarrow> sfs option" where
  "remove_ptrs pb s [] = Some s"
| "remove_ptrs pb s (i # is) =
     (case (if pb ! i > 0 then free_block s (pb ! i) else Some s) of
        None \<Rightarrow> None
      | Some s1 \<Rightarrow> remove_ptrs pb s1 is)"

definition remove_indirect :: "nat \<Rightarrow> sfs \<Rightarrow> sfs option" where
  "remove_indirect ino s =
     (let n = inodes s ! ino in
      if indirect n > 0 then
        (case remove_ptrs (load_ptrs (disk s (indirect n))) s [0..<PTR_BUFF_LEN] of
           None \<Rightarrow> None
         | Some s1 \<Rightarrow>
             Some (s1\<lparr>disk := (disk s1)(indirect n := zero_block),
                      inodes := (inodes s1)[ino := (inodes s1 ! ino)\<lparr>indirect := 0\<rparr>]\<rparr>))
      else Some s)"

definition sfs_remove :: "sfs \<Rightarrow> string \<Rightarrow> (int \<times> sfs) option" where
  "sfs_remove s file =
     (case remove_scan file (- 1, s) [0..<NUM_FILE_INODES] of
        (ino, s1) \<Rightarrow>
          if ino > 0 \<and> link_cnt (inodes s1 ! nat ino) = 1 then
            (case remove_direct (nat ino) s1 [0..<NUM_DIRECT_POINTERS] of
               None \<Rightarrow> None
             | Some s2 \<Rightarrow>
                 (case remove_indirect (nat ino) s2 of
                    None \<Rightarrow> None
                  | Some s3 \<Rightarrow>
                      Some (ino, s3\<lparr>
                        inodes := (inodes s3)[nat ino :=
                          (inodes s3 ! nat ino)\<lparr>mode := 0, isize := 0, link_cnt := 0\<rparr>],
                        num_files := (num_files s3 + 2 ^ 32 - 1) mod 2 ^ 32\<rparr>)))
          else Some (ino, s1))"

section \<open>What a file is: its blocks and its contents\<close>

definition ptrs_of :: "sfs \<Rightarrow> inode_t \<Rightarrow> nat list" where
  \<comment> \<open>the entries of the index block of an inode, as the operations load them\<close>
  "ptrs_of s n =
     (if indirect n > 0 then load_ptrs (disk s (indirect n)) else replicate PTR_BUFF_LEN 0)"

definition blk :: "sfs \<Rightarrow> inode_t \<Rightarrow> nat \<Rightarrow> nat" where
  \<comment> \<open>the disk block of the \<open>b\<close>-th block of a file; 0 when none is mapped\<close>
  "blk s n b =
     (if b < NUM_DIRECT_POINTERS then direct n ! b
      else if b < LOOP_BLOCK_LIMIT then ptrs_of s n ! (b - NUM_DIRECT_POINTERS)
      else 0)"

definition file_byte :: "sfs \<Rightarrow> inode_t \<Rightarrow> nat \<Rightarrow> char" where
  "file_byte s n k = disk s (blk s n (k div BLOCK_SIZE)) ! (k mod BLOCK_SIZE)"

definition contents :: "sfs \<Rightarrow> inode_t \<Rightarrow> char list" where
  \<comment> \<open>the bytes of a file, from offset 0 to its size\<close>
  "contents s n = map (file_byte s n) [0..<isize n]"

definition nblocks :: "nat \<Rightarrow> nat" where
  \<comment> \<open>the number of blocks that hold \<open>sz\<close> bytes: \<open>sz / BLOCK_SIZE\<close> rounded up\<close>
  "nblocks sz = (sz + BLOCK_SIZE - 1) div BLOCK_SIZE"

definition data_blocks :: "sfs \<Rightarrow> inode_t \<Rightarrow> nat" where
  \<comment> \<open>the number of data blocks that the direct pointers and the index block reference\<close>
  "data_blocks s n = length (filter (\<lambda>p. p > 0) (direct n @ ptrs_of s n))"

definition used_blocks :: "sfs \<Rightarrow> nat" where
  \<comment> \<open>the number of 1-valued bytes of the free-space bitmap\<close>
  "used_blocks s = length (filter (\<lambda>x. x = 1) (free_blocks s))"

definition no_holes :: "sfs \<Rightarrow> inode_t \<Rightarrow> bool" where
  \<comment> \<open>the body of the file is a contiguous allocated prefix\<close>
  "no_holes s n \<longleftrightarrow>
     isize n \<le> MAX_FILE_BYTES \<and> (\<forall>b. b * BLOCK_SIZE < isize n \<longrightarrow> blk s n b > 0)"

section \<open>The invariant of the tables\<close>

definition wf_arrays :: "sfs \<Rightarrow> bool" where
  \<comment> \<open>the sizes the C declarations fix\<close>
  "wf_arrays s \<longleftrightarrow>
     length (inodes s) = NUM_INODES \<and> length (fdt s) = NUM_INODES
     \<and> length (root s) = NUM_FILE_INODES
     \<and> length (free_blocks s) = MAX_DATA_BLOCKS_SCALED_DOWN
     \<and> (\<forall>i<NUM_INODES. length (direct (inodes s ! i)) = NUM_DIRECT_POINTERS)
     \<and> (\<forall>p. length (disk s p) = BLOCK_SIZE)"

definition file_inode :: "nat \<Rightarrow> bool" where
  \<comment> \<open>the inodes that hold files: all but inode 0\<close>
  "file_inode i \<longleftrightarrow> 0 < i \<and> i < NUM_INODES"

definition data_region :: "nat \<Rightarrow> bool" where
  "data_region p \<longleftrightarrow> DATA_BLOCKS_OFFSET \<le> p \<and> p < BITMAP_BLOCK_OFFSET"

definition file_inv :: "sfs \<Rightarrow> inode_t \<Rightarrow> bool" where
  \<comment> \<open>size and mapped blocks agree: block \<open>b\<close> is mapped exactly when the size reaches
      into it; a free inode maps nothing\<close>
  "file_inv s n \<longleftrightarrow>
     isize n \<le> MAX_FILE_BYTES
     \<and> (\<forall>b<LOOP_BLOCK_LIMIT. (blk s n b > 0) = (b * BLOCK_SIZE < isize n))
     \<and> link_cnt n \<le> 1
     \<and> (link_cnt n = 0 \<longrightarrow> indirect n = 0 \<and> isize n = 0)"

definition blocks_inv :: "sfs \<Rightarrow> bool" where
  \<comment> \<open>every referenced block lies in the data region and is marked in the bitmap, no
      block is referenced twice, and a block marked free holds zeros\<close>
  "blocks_inv s \<longleftrightarrow>
     (\<forall>i b. file_inode i \<and> b < LOOP_BLOCK_LIMIT \<and> blk s (inodes s ! i) b > 0 \<longrightarrow>
        data_region (blk s (inodes s ! i) b)
        \<and> free_blocks s ! (blk s (inodes s ! i) b - DATA_BLOCKS_OFFSET) = 1)
     \<and> (\<forall>i. file_inode i \<and> indirect (inodes s ! i) > 0 \<longrightarrow>
        data_region (indirect (inodes s ! i))
        \<and> free_blocks s ! (indirect (inodes s ! i) - DATA_BLOCKS_OFFSET) = 1)
     \<and> (\<forall>i b j c. file_inode i \<and> file_inode j \<and> b < LOOP_BLOCK_LIMIT \<and> c < LOOP_BLOCK_LIMIT
        \<and> blk s (inodes s ! i) b > 0 \<and> blk s (inodes s ! i) b = blk s (inodes s ! j) c \<longrightarrow>
        i = j \<and> b = c)
     \<and> (\<forall>i j. file_inode i \<and> file_inode j \<and> indirect (inodes s ! i) > 0
        \<and> indirect (inodes s ! i) = indirect (inodes s ! j) \<longrightarrow> i = j)
     \<and> (\<forall>i b j. file_inode i \<and> file_inode j \<and> b < LOOP_BLOCK_LIMIT
        \<and> blk s (inodes s ! i) b > 0 \<longrightarrow> blk s (inodes s ! i) b \<noteq> indirect (inodes s ! j))
     \<and> (\<forall>k<MAX_DATA_BLOCKS_SCALED_DOWN. free_blocks s ! k \<le> 1
        \<and> (free_blocks s ! k = 0 \<longrightarrow> disk s (k + DATA_BLOCKS_OFFSET) = zero_block))"

definition fdt_inv :: "sfs \<Rightarrow> bool" where
  \<comment> \<open>a descriptor is free (\<open>-1\<close>), the root's (0) or bound to an allocated inode, and
      no two descriptors are bound to one inode\<close>
  "fdt_inv s \<longleftrightarrow>
     inode (fdt s ! 0) = 0
     \<and> (\<forall>j. 0 < j \<and> j < NUM_INODES \<longrightarrow>
          inode (fdt s ! j) = - 1
          \<or> (0 < inode (fdt s ! j) \<and> inode (fdt s ! j) < int NUM_INODES
             \<and> link_cnt (inodes s ! nat (inode (fdt s ! j))) = 1))
     \<and> (\<forall>j j'. j < NUM_INODES \<and> j' < NUM_INODES \<and> 0 < inode (fdt s ! j)
          \<and> inode (fdt s ! j) = inode (fdt s ! j') \<longrightarrow> j = j')"

definition sfs_inv :: "sfs \<Rightarrow> bool" where
  "sfs_inv s \<longleftrightarrow>
     wf_arrays s \<and> (\<forall>i. file_inode i \<longrightarrow> file_inv s (inodes s ! i)) \<and> blocks_inv s \<and> fdt_inv s"

section \<open>Basic facts\<close>

subsection \<open>Constants and conversions\<close>

lemma const_vals [simp]:
  "MAX_FILENAME = 60" "BLOCK_SIZE = 1024" "NUM_INODES = 128" "NUM_FILE_INODES = 127"
  "NUM_DIRECT_POINTERS = 12" "NUM_POINTERS_IN_INDIRECT = 257" "MAX_DATA_BLOCKS_PER_FILE = 269"
  "MAX_DATA_BLOCKS_SCALED_DOWN = 2135" "DATA_BLOCKS_OFFSET = 18" "PTR_BUFF_LEN = 256"
  "LOOP_BLOCK_LIMIT = 268" "MAX_FILE_BYTES = 274432" "NUM_TOTAL_BLOCKS = 2156"
  "BITMAP_BLOCK_OFFSET = 2153" "NUM_INODE_BLOCKS = 9" "NUM_DATA_BLOCKS_FOR_DIR = 8"
  "NUM_DATA_BLOCKS_FOR_BITMAP = 3"
  by (simp_all add: MAX_FILENAME_def BLOCK_SIZE_def NUM_INODES_def NUM_FILE_INODES_def
      NUM_DIRECT_POINTERS_def NUM_POINTERS_IN_INDIRECT_def MAX_DATA_BLOCKS_PER_FILE_def
      MAX_DATA_BLOCKS_SCALED_DOWN_def DATA_BLOCKS_OFFSET_def PTR_BUFF_LEN_def
      LOOP_BLOCK_LIMIT_def MAX_FILE_BYTES_def NUM_TOTAL_BLOCKS_def BITMAP_BLOCK_OFFSET_def
      NUM_INODE_BLOCKS_def NUM_DATA_BLOCKS_FOR_DIR_def NUM_DATA_BLOCKS_FOR_BITMAP_def
      MAX_DATA_BLOCKS_TOTAL_def PTR_SIZE_def SIZEOF_INODE_def SIZEOF_DIRENT_def
      SIZEOF_BITMAP_ENTRY_def)

lemma to_int32_id: "- (2 ^ 31) \<le> x \<Longrightarrow> x < 2 ^ 31 \<Longrightarrow> to_int32 x = x"
  by (simp add: to_int32_def)

subsection \<open>The image of an index block\<close>

lemma of_char_lt_256: "(of_char c :: nat) < 256"
  by (metis char_of_char mod_less_divisor of_char_of zero_less_numeral)

lemma rd32_lt: "rd32 b k < 4294967296"
proof -
  define a0 a1 a2 a3 :: nat where "a0 = of_char (b ! (4 * k))" and "a1 = of_char (b ! (4 * k + 1))"
    and "a2 = of_char (b ! (4 * k + 2))" and "a3 = of_char (b ! (4 * k + 3))"
  have lt: "a0 < 256" "a1 < 256" "a2 < 256" "a3 < 256"
    by (simp_all only: a0_def a1_def a2_def a3_def of_char_lt_256)
  have "rd32 b k = a0 + 256 * a1 + 65536 * a2 + 16777216 * a3"
    by (simp only: rd32_def a0_def a1_def a2_def a3_def)
  with lt show ?thesis by linarith
qed

lemma length_wr32 [simp]: "length (wr32 n) = 4"
  by (simp add: wr32_def)

lemma length_store_ptrs [simp]: "length (store_ptrs ps) = 4 * length ps"
  by (induction ps) (simp_all add: store_ptrs_def)

lemma store_ptrs_nth:
  assumes "k < length ps" "j < 4"
  shows "store_ptrs ps ! (4 * k + j) = wr32 (ps ! k) ! j"
  using assms
proof (induction ps arbitrary: k)
  case Nil
  then show ?case by simp
next
  case (Cons p ps)
  show ?case
  proof (cases k)
    case 0
    with Cons.prems show ?thesis by (simp add: store_ptrs_def nth_append)
  next
    case (Suc k')
    with Cons.prems have "store_ptrs ps ! (4 * k' + j) = wr32 (ps ! k') ! j"
      by (intro Cons.IH) auto
    with Suc show ?thesis
      by (simp add: store_ptrs_def nth_append)
  qed
qed

lemma md256: "(a::nat) < 256 \<Longrightarrow> (a + 256 * m) mod 256 = a \<and> (a + 256 * m) div 256 = m"
  by simp

lemma div_mod_256: "(n::nat) = n mod 256 + 256 * (n div 256)"
  by simp

lemma rd32_wr32:
  assumes "n < 4294967296"
  shows "(of_char (wr32 n ! 0) :: nat) + 256 * of_char (wr32 n ! 1)
          + 65536 * of_char (wr32 n ! 2) + 16777216 * of_char (wr32 n ! 3) = n"
proof -
  define n1 n2 n3 where "n1 = n div 256" and "n2 = n1 div 256" and "n3 = n2 div 256"
  have d: "n div 65536 = n2" "n div 16777216 = n3"
    by (simp_all add: n1_def n2_def n3_def div_mult2_eq[symmetric])
  have "n < 256 * 16777216" using assms by simp
  then have "n div 16777216 < 256" by (rule less_mult_imp_div_less)
  then have m3: "n3 mod 256 = n3" using d(2) by simp
  have e: "n = n mod 256 + 256 * n1" "n1 = n1 mod 256 + 256 * n2" "n2 = n2 mod 256 + 256 * n3"
    unfolding n1_def n2_def n3_def by (rule div_mod_256)+
  have "(of_char (wr32 n ! 0) :: nat) + 256 * of_char (wr32 n ! 1)
          + 65536 * of_char (wr32 n ! 2) + 16777216 * of_char (wr32 n ! 3)
        = n mod 256 + 256 * (n1 mod 256) + 65536 * (n2 mod 256) + 16777216 * n3"
    by (simp add: wr32_def d m3 n1_def[symmetric])
  also have "\<dots> = n" using e by linarith
  finally show ?thesis .
qed

lemma wr32_rd32_nth:
  assumes "j < 4"
  shows "wr32 (rd32 b k) ! j = b ! (4 * k + j)"
proof -
  define a0 a1 a2 a3 :: nat where "a0 = of_char (b ! (4 * k))" and "a1 = of_char (b ! (4 * k + 1))"
    and "a2 = of_char (b ! (4 * k + 2))" and "a3 = of_char (b ! (4 * k + 3))"
  have lt: "a0 < 256" "a1 < 256" "a2 < 256" "a3 < 256"
    by (simp_all only: a0_def a1_def a2_def a3_def of_char_lt_256)
  have "rd32 b k = a0 + 256 * a1 + 65536 * a2 + 16777216 * a3"
    by (simp only: rd32_def a0_def a1_def a2_def a3_def)
  also have "\<dots> = a0 + 256 * (a1 + 256 * (a2 + 256 * a3))"
    by simp
  finally have r: "rd32 b k = a0 + 256 * (a1 + 256 * (a2 + 256 * a3))" .
  have c: "char_of a0 = b ! (4 * k)" "char_of a1 = b ! (4 * k + 1)"
    "char_of a2 = b ! (4 * k + 2)" "char_of a3 = b ! (4 * k + 3)"
    by (simp_all only: a0_def a1_def a2_def a3_def char_of_char)
  have m0: "rd32 b k mod 256 = a0" and d1: "rd32 b k div 256 = a1 + 256 * (a2 + 256 * a3)"
    unfolding r using md256[OF lt(1)] by blast+
  have m1: "rd32 b k div 256 mod 256 = a1" and d2': "rd32 b k div 256 div 256 = a2 + 256 * a3"
    unfolding d1 using md256[OF lt(2)] by blast+
  have m2: "rd32 b k div 256 div 256 mod 256 = a2" and d3': "rd32 b k div 256 div 256 div 256 = a3"
    unfolding d2' using md256[OF lt(3)] by blast+
  have d2: "rd32 b k div 65536 = rd32 b k div 256 div 256"
    and d3: "rd32 b k div 16777216 = rd32 b k div 256 div 256 div 256"
    by (simp_all add: div_mult2_eq[symmetric])
  have e0: "char_of (rd32 b k) = char_of a0"
    using m0 by (metis char_of_mod_256)
  have e1: "char_of (rd32 b k div 256) = char_of a1"
    using m1 by (metis char_of_mod_256)
  have e2: "char_of (rd32 b k div 65536) = char_of a2"
    unfolding d2 using m2 by (metis char_of_mod_256)
  have e3: "char_of (rd32 b k div 16777216) = char_of a3"
    unfolding d3 d3' ..
  have w: "wr32 (rd32 b k) = [b ! (4 * k), b ! (4 * k + 1), b ! (4 * k + 2), b ! (4 * k + 3)]"
    by (simp only: wr32_def e0 e1 e2 e3 c)
  from assms consider "j = 0" | "j = 1" | "j = 2" | "j = 3" by linarith
  then show ?thesis
    by cases (simp_all add: w numeral_2_eq_2 numeral_3_eq_3)
qed

lemma rd32_store_ptrs:
  assumes "k < length ps" "ps ! k < 4294967296"
  shows "rd32 (store_ptrs ps) k = ps ! k"
proof -
  have "store_ptrs ps ! (4 * k + 0) = wr32 (ps ! k) ! 0"
    "store_ptrs ps ! (4 * k + 1) = wr32 (ps ! k) ! 1"
    "store_ptrs ps ! (4 * k + 2) = wr32 (ps ! k) ! 2"
    "store_ptrs ps ! (4 * k + 3) = wr32 (ps ! k) ! 3"
    using assms(1) by (intro store_ptrs_nth; simp)+
  then show ?thesis
    using rd32_wr32[OF assms(2)] by (simp only: rd32_def add_0_right)
qed

lemma length_load_ptrs [simp]: "length (load_ptrs b) = 256"
  by (simp add: load_ptrs_def)

lemma load_ptrs_nth: "k < 256 \<Longrightarrow> load_ptrs b ! k = rd32 b k"
  by (simp add: load_ptrs_def)

lemma load_ptrs_lt: "k < 256 \<Longrightarrow> load_ptrs b ! k < 4294967296"
  by (simp add: load_ptrs_nth rd32_lt)

lemma load_store_ptrs:
  assumes "length ps = 256" "\<forall>k<256. ps ! k < 4294967296"
  shows "load_ptrs (store_ptrs ps) = ps"
  using assms by (intro nth_equalityI) (simp_all add: load_ptrs_nth rd32_store_ptrs)

lemma store_load_ptrs:
  assumes "length b = 1024"
  shows "store_ptrs (load_ptrs b) = b"
proof (rule nth_equalityI)
  show "length (store_ptrs (load_ptrs b)) = length b" using assms by simp
next
  fix i assume "i < length (store_ptrs (load_ptrs b))"
  then have i: "i < 1024" by simp
  define k j where "k = i div 4" and "j = i mod 4"
  then have kj: "i = 4 * k + j" "k < 256" "j < 4" using i by auto
  have "store_ptrs (load_ptrs b) ! (4 * k + j) = wr32 (load_ptrs b ! k) ! j"
    using kj by (intro store_ptrs_nth) simp_all
  also have "\<dots> = b ! (4 * k + j)"
    using kj by (simp add: load_ptrs_nth wr32_rd32_nth)
  finally show "store_ptrs (load_ptrs b) ! i = b ! i" using kj by simp
qed

lemma load_ptrs_zero_block [simp]: "load_ptrs zero_block = replicate 256 0"
  by (intro nth_equalityI) (simp_all add: load_ptrs_nth rd32_def zero_block_def)

lemma store_ptrs_zero [simp]: "store_ptrs (replicate 256 0) = zero_block"
proof -
  have "store_ptrs (load_ptrs zero_block) = zero_block"
    by (rule store_load_ptrs) (simp add: zero_block_def)
  then show ?thesis by simp
qed

subsection \<open>First-fit allocation\<close>

lemma scan_free_neg: "scan_free xs i = - 1 \<longleftrightarrow> 0 \<notin> set xs"
  by (induction xs arbitrary: i) auto

lemma scan_free_pos:
  "scan_free xs i \<noteq> - 1 \<Longrightarrow>
     int i \<le> scan_free xs i \<and> scan_free xs i < int (i + length xs)
     \<and> xs ! (nat (scan_free xs i) - i) = 0"
proof (induction xs arbitrary: i)
  case Nil
  then show ?case by simp
next
  case (Cons x xs)
  show ?case
  proof (cases "x = 0")
    case True
    then show ?thesis by simp
  next
    case False
    with Cons.prems have ne: "scan_free xs (Suc i) \<noteq> - 1" by simp
    from Cons.IH[OF ne] have ih: "int (Suc i) \<le> scan_free xs (Suc i)"
      "scan_free xs (Suc i) < int (Suc i + length xs)"
      "xs ! (nat (scan_free xs (Suc i)) - Suc i) = 0" by auto
    from ih(1) have "nat (scan_free xs (Suc i)) - i = Suc (nat (scan_free xs (Suc i)) - Suc i)"
      by linarith
    with ih False show ?thesis by simp
  qed
qed

lemma get_free_none:
  "length (free_blocks s) = 2135 \<Longrightarrow>
     get_free_bitmap_address s = - 1 \<longleftrightarrow> (\<forall>k<2135. free_blocks s ! k \<noteq> 0)"
  by (auto simp: get_free_bitmap_address_def scan_free_neg in_set_conv_nth)

lemma get_free_some:
  assumes "length (free_blocks s) = 2135" "get_free_bitmap_address s \<noteq> - 1"
  shows "0 \<le> get_free_bitmap_address s \<and> get_free_bitmap_address s < 2135
     \<and> free_blocks s ! nat (get_free_bitmap_address s) = 0"
  using scan_free_pos[of "take 2135 (free_blocks s)" 0] assms
  by (auto simp: get_free_bitmap_address_def)

section \<open>Format, open, close and seek\<close>

lemma fresh_fields:
  "inodes fresh = map (\<lambda>i. \<lparr>mode = 0, link_cnt = (if i = 0 then 1 else 0), isize = 0,
      direct = replicate 12 0, indirect = 0\<rparr>) [0..<128]"
  "fdt fresh = map (\<lambda>i. \<lparr>inode = (if i = 0 then 0 else - 1), rwptr = 0\<rparr>) [0..<128]"
  "root fresh = replicate 127 \<lparr>dmode = 0, names = []\<rparr>"
  "free_blocks fresh = replicate 2135 0"
  "num_files fresh = 0" "curr_file fresh = 0"
  "disk fresh = fresh_disk"
  by (auto simp: fresh_def mksfs_fresh_def boot_def)

lemma fresh_nth:
  "0 < i \<Longrightarrow> i < 128 \<Longrightarrow> inodes fresh ! i =
     \<lparr>mode = 0, link_cnt = 0, isize = 0, direct = replicate 12 0, indirect = 0\<rparr>"
  "0 < i \<Longrightarrow> i < 128 \<Longrightarrow> fdt fresh ! i = \<lparr>inode = - 1, rwptr = 0\<rparr>"
  "i < 127 \<Longrightarrow> root fresh ! i = \<lparr>dmode = 0, names = []\<rparr>"
  "fdt fresh ! 0 = \<lparr>inode = 0, rwptr = 0\<rparr>"
  by (simp_all add: fresh_fields)

lemma find_upt_Some_iff:
  "List.find P [m..<n] = Some i \<longleftrightarrow> m \<le> i \<and> i < n \<and> P i \<and> (\<forall>k. m \<le> k \<and> k < i \<longrightarrow> \<not> P k)"
proof -
  have "List.find P [m..<n] = Some i \<longleftrightarrow>
      (\<exists>j<n - m. P (m + j) \<and> i = m + j \<and> (\<forall>l<j. \<not> P (m + l)))"
    by (auto simp: find_Some_iff)
  also have "\<dots> \<longleftrightarrow> m \<le> i \<and> i < n \<and> P i \<and> (\<forall>k. m \<le> k \<and> k < i \<longrightarrow> \<not> P k)"
  proof
    assume "\<exists>j<n - m. P (m + j) \<and> i = m + j \<and> (\<forall>l<j. \<not> P (m + l))"
    then obtain j where j: "j < n - m" "P (m + j)" "i = m + j" "\<forall>l<j. \<not> P (m + l)"
      by blast
    have "\<not> P k" if "m \<le> k" "k < i" for k
    proof -
      from that j(3) have "k - m < j" "k = m + (k - m)" by arith+
      with j(4) show ?thesis by metis
    qed
    with j show "m \<le> i \<and> i < n \<and> P i \<and> (\<forall>k. m \<le> k \<and> k < i \<longrightarrow> \<not> P k)"
      by auto
  next
    assume a: "m \<le> i \<and> i < n \<and> P i \<and> (\<forall>k. m \<le> k \<and> k < i \<longrightarrow> \<not> P k)"
    then have "i - m < n - m \<and> P (m + (i - m)) \<and> i = m + (i - m) \<and> (\<forall>l<i - m. \<not> P (m + l))"
      by auto
    then show "\<exists>j<n - m. P (m + j) \<and> i = m + j \<and> (\<forall>l<j. \<not> P (m + l))"
      by blast
  qed
  finally show ?thesis .
qed

lemma find_upt_None_iff:
  "List.find P [m..<n] = None \<longleftrightarrow> (\<forall>k. m \<le> k \<and> k < n \<longrightarrow> \<not> P k)"
  by (auto simp: find_None_iff)

lemma find_name_find:
  "find_name s name is = List.find (\<lambda>i. cstr name = names (root s ! i)) is"
  by (induction "is") auto

lemma find_name_upt:
  "find_name s name [0..<n] = Some i \<longleftrightarrow>
     i < n \<and> names (root s ! i) = cstr name \<and> (\<forall>k<i. names (root s ! k) \<noteq> cstr name)"
  by (auto simp: find_name_find find_upt_Some_iff)

lemma find_name_None_iff:
  "find_name s name is = None \<longleftrightarrow> (\<forall>k\<in>set is. names (root s ! k) \<noteq> cstr name)"
  by (auto simp: find_name_find find_None_iff)

lemma scan_fdt_None_iff:
  "scan_fdt s ino ff js = None \<longleftrightarrow> (\<exists>j\<in>set js. inode (fdt s ! j) = ino)"
  by (induction js arbitrary: ff) auto

lemma scan_fdt_no_free:
  "\<forall>j\<in>set js. inode (fdt s ! j) \<noteq> - 1 \<Longrightarrow> scan_fdt s ino ff js = Some r \<Longrightarrow> r = ff"
  by (induction js arbitrary: ff) (auto split: if_splits)

lemma first_free_fd_None_iff:
  "first_free_fd s js = None \<longleftrightarrow> (\<forall>j\<in>set js. inode (fdt s ! j) \<noteq> - 1)"
  by (induction js) auto

lemma fopen_new_no_inode:
  "\<forall>i\<in>set is. link_cnt (inodes s ! i) \<noteq> 0 \<Longrightarrow> fopen_new s name is = (- 1, s)"
  by (induction "is") auto

lemma fopen_new_no_fd:
  "first_free_fd s [1..<NUM_INODES] = None \<Longrightarrow> fopen_new s name is = (- 1, s)"
  by (induction "is") auto



text \<open>The first file of a fresh file system gets inode 1 and descriptor 1.\<close>

lemma fopen_fresh:
  assumes "cstr name \<noteq> []" "strlen name < 60"
  shows "sfs_fopen fresh name = (1, fresh\<lparr>
     fdt := (fdt fresh)[1 := \<lparr>inode = 1, rwptr = 0\<rparr>],
     num_files := 1,
     inodes := (inodes fresh)[1 := \<lparr>mode = 1, link_cnt = 1, isize = 0,
        direct = replicate 12 0, indirect = 0\<rparr>],
     root := (root fresh)[0 := \<lparr>dmode = 1, names = cstr name\<rparr>]\<rparr>)"
proof -
  have "find_name fresh name [0..<127] = None"
    using assms(1) by (auto simp: find_name_None_iff fresh_nth)
  moreover have u: "[1..<128] = 1 # [2..<128]"
    by (simp add: upt_conv_Cons)
  have "first_free_fd fresh [1..<128] = Some 1"
    unfolding u by (simp add: fresh_nth)
  then have "fopen_new fresh name [1..<128] = (1, fresh\<lparr>
     fdt := (fdt fresh)[1 := \<lparr>inode = 1, rwptr = 0\<rparr>],
     num_files := 1,
     inodes := (inodes fresh)[1 := \<lparr>mode = 1, link_cnt = 1, isize = 0,
        direct = replicate 12 0, indirect = 0\<rparr>],
     root := (root fresh)[0 := \<lparr>dmode = 1, names = cstr name\<rparr>]\<rparr>)"
    by (subst u) (simp add: fresh_nth fresh_fields(5))
  ultimately show ?thesis
    using assms(2) by (simp add: sfs_fopen_def)
qed

text \<open>
  C9. A handle outside the descriptor table: \<open>sfs_fwrite\<close> and \<open>sfs_fread\<close> compute
  \<open>&fdt[fileID]\<close> and read \<open>f->inode\<close> without a range check on \<open>fileID\<close>
  (\<open>sfs_fclose\<close> and \<open>sfs_fseek\<close> check \<open>fileID > 0 && fileID < NUM_INODES\<close> first).
  For a positive length and \<open>fileID = 128\<close> or \<open>fileID = -1\<close> the read of the
  descriptor table is out of bounds, so the calls have no defined result, on a fresh
  file system as on any other.
\<close>

theorem bad_handle_reads_outside_fdt:
  "sfs_fwrite fresh 128 ''x'' 1 = None \<and> sfs_fread fresh (- 1) ''x'' 1 = None
   \<and> sfs_fwrite s (- 1) buf 1 = None \<and> sfs_fread s 128 buf 1 = None"
  by (simp add: sfs_fwrite_def sfs_fread_def)

text \<open>
  C7, with the name resolved as the code resolves it. \<open>sfs_fopen\<close> compares the name
  with the \<open>names\<close> field of every directory slot, active or not, and takes the first
  slot that compares equal; the inode bound to the name is the inode of that slot.
  \<open>sfs_fopen\<close> fails with \<open>-1\<close> and leaves every table as it was when the name
  is too long, when a descriptor already holds the inode of the first directory slot
  whose name compares equal, when no slot compares equal and no inode is free, and when no
  descriptor is free. (A descriptor that holds the inode of a later slot of the same name
  does not make the call fail; a session with the empty name, further below, shows it.)
\<close>

theorem fopen_failures:
  assumes "MAX_FILENAME \<le> strlen name
     \<or> (\<exists>i j. i < NUM_FILE_INODES \<and> names (root s ! i) = cstr name
           \<and> (\<forall>k<i. names (root s ! k) \<noteq> cstr name)
           \<and> 0 < j \<and> j < NUM_INODES \<and> inode (fdt s ! j) = int i + 1)
     \<or> ((\<forall>i<NUM_FILE_INODES. names (root s ! i) \<noteq> cstr name)
           \<and> (\<forall>i. 0 < i \<and> i < NUM_INODES \<longrightarrow> link_cnt (inodes s ! i) \<noteq> 0))
     \<or> (\<forall>j. 0 < j \<and> j < NUM_INODES \<longrightarrow> inode (fdt s ! j) \<noteq> - 1)"
  shows "sfs_fopen s name = (- 1, s)"
proof -
  consider (long) "MAX_FILENAME \<le> strlen name"
    | (dup) i j where "i < NUM_FILE_INODES" "names (root s ! i) = cstr name"
        "\<forall>k<i. names (root s ! k) \<noteq> cstr name" "0 < j" "j < NUM_INODES"
        "inode (fdt s ! j) = int i + 1"
    | (noino) "\<forall>i<NUM_FILE_INODES. names (root s ! i) \<noteq> cstr name"
        "\<forall>i. 0 < i \<and> i < NUM_INODES \<longrightarrow> link_cnt (inodes s ! i) \<noteq> 0"
    | (nofd) "\<forall>j. 0 < j \<and> j < NUM_INODES \<longrightarrow> inode (fdt s ! j) \<noteq> - 1"
    using assms by blast
  then show ?thesis
  proof cases
    case long
    then show ?thesis by (simp add: sfs_fopen_def)
  next
    case dup
    then have "find_name s name [0..<NUM_FILE_INODES] = Some i"
      by (simp add: find_name_upt)
    moreover have "scan_fdt s (int i + 1) (- 1) [1..<NUM_INODES] = None"
      using dup by (auto simp: scan_fdt_None_iff intro!: bexI[of _ j])
    ultimately show ?thesis by (simp add: sfs_fopen_def)
  next
    case noino
    then have "find_name s name [0..<NUM_FILE_INODES] = None"
      by (simp add: find_name_None_iff)
    moreover have "fopen_new s name [1..<NUM_INODES] = (- 1, s)"
      using noino by (intro fopen_new_no_inode) auto
    ultimately show ?thesis by (simp add: sfs_fopen_def)
  next
    case nofd
    then have nf: "\<forall>j\<in>set [1..<NUM_INODES]. inode (fdt s ! j) \<noteq> - 1"
      by auto
    show ?thesis
    proof (cases "find_name s name [0..<NUM_FILE_INODES]")
      case None
      with nf show ?thesis
        by (simp add: sfs_fopen_def fopen_new_no_fd first_free_fd_None_iff del: const_vals)
    next
      case (Some i)
      show ?thesis
      proof (cases "scan_fdt s (int i + 1) (- 1) [1..<NUM_INODES]")
        case None
        with Some show ?thesis by (simp add: sfs_fopen_def)
      next
        case (Some r)
        with nf have "r = - 1" by (rule scan_fdt_no_free)
        with Some \<open>find_name s name [0..<NUM_FILE_INODES] = Some i\<close> show ?thesis
          by (simp add: sfs_fopen_def)
      qed
    qed
  qed
qed


theorem fopen_failures_witness:
  "sfs_fopen fresh (replicate 60 (CHR ''a'')) = (- 1, fresh)
   \<and> sfs_fopen (snd (sfs_fopen fresh ''f'')) ''f'' = (- 1, snd (sfs_fopen fresh ''f''))
   \<and> sfs_fopen (fresh\<lparr>inodes := map (\<lambda>n. n\<lparr>link_cnt := 1\<rparr>) (inodes fresh)\<rparr>) ''f''
       = (- 1, fresh\<lparr>inodes := map (\<lambda>n. n\<lparr>link_cnt := 1\<rparr>) (inodes fresh)\<rparr>)
   \<and> sfs_fopen (fresh\<lparr>fdt := map (\<lambda>j. \<lparr>inode = int j, rwptr = 0\<rparr>) [0..<128],
         inodes := map (\<lambda>n. n\<lparr>link_cnt := 1\<rparr>) (inodes fresh)\<rparr>) ''f''
       = (- 1, fresh\<lparr>fdt := map (\<lambda>j. \<lparr>inode = int j, rwptr = 0\<rparr>) [0..<128],
         inodes := map (\<lambda>n. n\<lparr>link_cnt := 1\<rparr>) (inodes fresh)\<rparr>)"
proof -
  have 1: "MAX_FILENAME \<le> strlen (replicate 60 (CHR ''a''))"
    by (simp add: strlen_def cstr_def)
  have c: "cstr ''f'' = ''f''" by (simp add: cstr_def)
  then have o: "sfs_fopen fresh ''f'' = (1, fresh\<lparr>
     fdt := (fdt fresh)[1 := \<lparr>inode = 1, rwptr = 0\<rparr>],
     num_files := 1,
     inodes := (inodes fresh)[1 := \<lparr>mode = 1, link_cnt = 1, isize = 0,
        direct = replicate 12 0, indirect = 0\<rparr>],
     root := (root fresh)[0 := \<lparr>dmode = 1, names = ''f''\<rparr>]\<rparr>)"
    using fopen_fresh[of "''f''"] by (simp add: strlen_def)
  have 2: "\<exists>i j. i < NUM_FILE_INODES
      \<and> names (root (snd (sfs_fopen fresh ''f'')) ! i) = cstr ''f''
      \<and> (\<forall>k<i. names (root (snd (sfs_fopen fresh ''f'')) ! k) \<noteq> cstr ''f'')
      \<and> 0 < j \<and> j < NUM_INODES \<and> inode (fdt (snd (sfs_fopen fresh ''f'')) ! j) = int i + 1"
    by (rule exI[of _ 0], rule exI[of _ 1]) (simp add: o c fresh_fields)
  have 3: "(\<forall>i<NUM_FILE_INODES.
        names (root (fresh\<lparr>inodes := map (\<lambda>n. n\<lparr>link_cnt := 1\<rparr>) (inodes fresh)\<rparr>) ! i) \<noteq> cstr ''f'')
      \<and> (\<forall>i. 0 < i \<and> i < NUM_INODES \<longrightarrow>
        link_cnt (inodes (fresh\<lparr>inodes := map (\<lambda>n. n\<lparr>link_cnt := 1\<rparr>) (inodes fresh)\<rparr>) ! i) \<noteq> 0)"
    by (simp add: c fresh_fields)
  have 4: "\<forall>j. 0 < j \<and> j < NUM_INODES \<longrightarrow> inode (fdt (fresh\<lparr>fdt := map (\<lambda>j. \<lparr>inode = int j, rwptr = 0\<rparr>) [0..<128],
         inodes := map (\<lambda>n. n\<lparr>link_cnt := 1\<rparr>) (inodes fresh)\<rparr>) ! j) \<noteq> - 1"
    by simp
  show ?thesis
    using fopen_failures[of "replicate 60 (CHR ''a'')" fresh]
      fopen_failures[of "''f''" "snd (sfs_fopen fresh ''f'')"]
      fopen_failures[of "''f''" "fresh\<lparr>inodes := map (\<lambda>n. n\<lparr>link_cnt := 1\<rparr>) (inodes fresh)\<rparr>"]
      fopen_failures[of "''f''" "fresh\<lparr>fdt := map (\<lambda>j. \<lparr>inode = int j, rwptr = 0\<rparr>) [0..<128],
         inodes := map (\<lambda>n. n\<lparr>link_cnt := 1\<rparr>) (inodes fresh)\<rparr>"] 1 2 3 4
    by blast
qed

section \<open>Read\<close>

lemma same_block:
  assumes "i < 1024 - p mod 1024"
  shows "(p + i) div 1024 = p div 1024" "(p + i) mod 1024 = p mod 1024 + (i::nat)"
proof -
  have "p + i = p div 1024 * 1024 + (p mod 1024 + i)" by simp
  moreover have "p mod 1024 + i < 1024" using assms by simp
  ultimately show "(p + i) div 1024 = p div 1024" "(p + i) mod 1024 = p mod 1024 + i"
    by (metis div_mult_self3 div_less add.commute add_cancel_left_left zero_neq_numeral,
        metis mod_mult_self3 mod_less)
qed

lemma chunk_of_block:
  assumes "length (disk s (blk s n (p div 1024))) = 1024" "cnt \<le> 1024 - p mod 1024"
  shows "take cnt (drop (p mod 1024) (disk s (blk s n (p div 1024))))
         = map (file_byte s n) [p..<p + cnt]"
proof (rule nth_equalityI)
  show "length (take cnt (drop (p mod 1024) (disk s (blk s n (p div 1024)))))
        = length (map (file_byte s n) [p..<p + cnt])"
    using assms by simp
next
  fix i assume "i < length (take cnt (drop (p mod 1024) (disk s (blk s n (p div 1024)))))"
  then have i: "i < cnt" by simp
  with assms(2) have "i < 1024 - p mod 1024" by simp
  from same_block[OF this] i assms show
    "take cnt (drop (p mod 1024) (disk s (blk s n (p div 1024)))) ! i
     = map (file_byte s n) [p..<p + cnt] ! i"
    by (simp add: file_byte_def)
qed

lemma upt_split: "a \<le> b \<Longrightarrow> b \<le> c \<Longrightarrow> [a..<c] = [a..<b] @ [b..<(c::nat)]"
  by (metis le_Suc_ex upt_add_eq_append)

lemma splice_take:
  "br + cnt \<le> length buf \<Longrightarrow> length chunk = cnt \<Longrightarrow>
     take (br + cnt) (take br buf @ chunk @ drop (br + cnt) buf) = take br buf @ chunk"
  by simp

lemma splice_drop:
  "br + cnt \<le> length buf \<Longrightarrow> length chunk = cnt \<Longrightarrow> cnt \<le> t \<Longrightarrow>
     drop (br + t) (take br buf @ chunk @ drop (br + cnt) buf) = drop (br + t) buf"
  by (simp add: min_absorb2 add.commute)

lemma splice_length:
  "br + cnt \<le> length buf \<Longrightarrow> length chunk = cnt \<Longrightarrow>
     length (take br buf @ chunk @ drop (br + cnt) buf) = length buf"
  by simp

lemma blk_indirect:
  assumes "12 \<le> b" "b < 268" "blk s n b > 0"
  shows "indirect n > 0" "load_ptrs (disk s (indirect n)) ! (b - 12) = blk s n b"
  using assms by (auto simp: blk_def ptrs_of_def split: if_splits)

lemma fread_block_mapped:
  assumes "blk s (inodes s ! ino) (r_current_block r) > 0" "r_current_block r < 268"
    and "r_did_load_ptr_buff r \<longrightarrow>
           r_ptr_buff r = load_ptrs (disk s (indirect (inodes s ! ino)))"
  shows "\<exists>r1. fread_block s ino r = (Some (disk s (blk s (inodes s ! ino) (r_current_block r))), r1)
     \<and> (r_did_load_ptr_buff r1 \<longrightarrow> r_ptr_buff r1 = load_ptrs (disk s (indirect (inodes s ! ino))))
     \<and> r_rwptr r1 = r_rwptr r \<and> r_buf r1 = r_buf r \<and> bytes_read r1 = bytes_read r
     \<and> bytes_to_read r1 = bytes_to_read r \<and> r_current_block r1 = r_current_block r"
proof (cases "r_current_block r < 12")
  case True
  with assms show ?thesis
    by (simp add: fread_block_def blk_def)
next
  case False
  then have "12 \<le> r_current_block r" by simp
  from blk_indirect[OF this assms(2,1)] assms(1,3) False show ?thesis
    by (auto simp: fread_block_def Let_def)
qed

lemma fread_loop_spec:
  assumes "no_holes s (inodes s ! ino)"
    and "\<forall>p. length (disk s p) = 1024"
    and "r_did_load_ptr_buff r \<longrightarrow>
           r_ptr_buff r = load_ptrs (disk s (indirect (inodes s ! ino)))"
    and "r_current_block r = r_rwptr r div 1024" "did_write_to_buf r"
    and "r_rwptr r + bytes_to_read r \<le> isize (inodes s ! ino)"
    and "bytes_read r + bytes_to_read r \<le> length (r_buf r)"
  shows "\<exists>r'. fread_loop s ino r = Some r'
     \<and> r_rwptr r' = r_rwptr r + bytes_to_read r
     \<and> bytes_read r' = bytes_read r + bytes_to_read r
     \<and> r_buf r' = take (bytes_read r) (r_buf r)
         @ map (file_byte s (inodes s ! ino)) [r_rwptr r..<r_rwptr r + bytes_to_read r]
         @ drop (bytes_read r + bytes_to_read r) (r_buf r)"
  using assms(3-)
proof (induction "bytes_to_read r" arbitrary: r rule: less_induct)
  case less
  let ?n = "inodes s ! ino"
  let ?p = "r_rwptr r" and ?t = "bytes_to_read r" and ?br = "bytes_read r"
  show ?case
  proof (cases "?t = 0")
    case True
    then have "fread_loop s ino r = Some r"
      by (simp add: fread_loop.simps fread_guard_def)
    with True show ?thesis by simp
  next
    case False
    then have t: "0 < ?t" by simp
    with less.prems(4) have lt: "?p < isize ?n" by simp
    moreover from assms(1) have sz: "isize ?n \<le> 274432" by (simp add: no_holes_def)
    ultimately have cb: "r_current_block r < 268" using less.prems(2) by simp
    have "?p div 1024 * 1024 \<le> ?p" by simp
    then have "r_current_block r * 1024 < isize ?n"
      using lt less.prems(2) by simp
    with assms(1) have mapped: "blk s ?n (r_current_block r) > 0"
      by (simp add: no_holes_def)
    from fread_block_mapped[OF mapped cb less.prems(1)]
    obtain r1 where r1: "fread_block s ino r = (Some (disk s (blk s ?n (r_current_block r))), r1)"
      "r_did_load_ptr_buff r1 \<longrightarrow> r_ptr_buff r1 = load_ptrs (disk s (indirect ?n))"
      "r_rwptr r1 = ?p" "r_buf r1 = r_buf r" "bytes_read r1 = ?br"
      "bytes_to_read r1 = ?t" "r_current_block r1 = r_current_block r"
      by blast
    define cnt where "cnt = min (1024 - ?p mod 1024) ?t"
    have cnt: "0 < cnt" "cnt \<le> ?t" "cnt \<le> 1024 - ?p mod 1024"
      using t by (simp_all add: cnt_def)
    define chunk where "chunk = take cnt (drop (?p mod 1024) (disk s (blk s ?n (?p div 1024))))"
    have chunk: "chunk = map (file_byte s ?n) [?p..<?p + cnt]"
      unfolding chunk_def using assms(2) cnt(3) by (intro chunk_of_block) simp_all
    then have lchunk: "length chunk = cnt" by simp
    define r2 where "r2 = r1\<lparr>
       r_buf := take ?br (r_buf r) @ chunk @ drop (?br + cnt) (r_buf r),
       did_write_to_buf := True, bytes_read := ?br + cnt, bytes_to_read := ?t - cnt,
       r_rwptr := ?p + cnt, r_current_block := (?p + cnt) div 1024\<rparr>"
    have body: "fread_body s ino r = Some r2"
      using r1 cnt less.prems(2,5)
      by (simp add: fread_body_def Let_def cnt_def[symmetric] chunk_def r2_def)
    have guard: "fread_guard r"
      using less.prems(3) t cb by (simp add: fread_guard_def)
    have step: "fread_loop s ino r = fread_loop s ino r2"
      using guard body by (subst fread_loop.simps) simp
    have fits: "?br + cnt \<le> length (r_buf r)" using cnt(2) less.prems(5) by simp
    have "\<exists>r'. fread_loop s ino r2 = Some r'
       \<and> r_rwptr r' = r_rwptr r2 + bytes_to_read r2
       \<and> bytes_read r' = bytes_read r2 + bytes_to_read r2
       \<and> r_buf r' = take (bytes_read r2) (r_buf r2)
           @ map (file_byte s ?n) [r_rwptr r2..<r_rwptr r2 + bytes_to_read r2]
           @ drop (bytes_read r2 + bytes_to_read r2) (r_buf r2)"
    proof (rule less.hyps)
      show "bytes_to_read r2 < ?t" using cnt t by (simp add: r2_def)
      show "r_did_load_ptr_buff r2 \<longrightarrow> r_ptr_buff r2 = load_ptrs (disk s (indirect ?n))"
        using r1(2) by (simp add: r2_def)
      show "r_current_block r2 = r_rwptr r2 div 1024" by (simp add: r2_def)
      show "did_write_to_buf r2" by (simp add: r2_def)
      show "r_rwptr r2 + bytes_to_read r2 \<le> isize ?n"
        using less.prems(4) cnt(2) by (simp add: r2_def)
      show "bytes_read r2 + bytes_to_read r2 \<le> length (r_buf r2)"
        using less.prems(5) cnt(2) fits lchunk by (simp add: r2_def)
    qed
    then obtain r' where r': "fread_loop s ino r2 = Some r'"
      "r_rwptr r' = r_rwptr r2 + bytes_to_read r2"
      "bytes_read r' = bytes_read r2 + bytes_to_read r2"
      "r_buf r' = take (bytes_read r2) (r_buf r2)
           @ map (file_byte s ?n) [r_rwptr r2..<r_rwptr r2 + bytes_to_read r2]
           @ drop (bytes_read r2 + bytes_to_read r2) (r_buf r2)"
      by blast
    have f2: "r_rwptr r2 = ?p + cnt" "bytes_to_read r2 = ?t - cnt" "bytes_read r2 = ?br + cnt"
      "r_buf r2 = take ?br (r_buf r) @ chunk @ drop (?br + cnt) (r_buf r)"
      by (simp_all add: r2_def)
    have e1: "take (?br + cnt) (r_buf r2) = take ?br (r_buf r) @ chunk"
      unfolding f2 using fits lchunk by (rule splice_take)
    have e2: "drop (?br + ?t) (r_buf r2) = drop (?br + ?t) (r_buf r)"
      unfolding f2 using fits lchunk cnt(2) by (rule splice_drop)
    have e3: "map (file_byte s ?n) [?p..<?p + cnt] @ map (file_byte s ?n) [?p + cnt..<?p + ?t]
        = map (file_byte s ?n) [?p..<?p + ?t]"
      using cnt(2) upt_split[of ?p "?p + cnt" "?p + ?t"] by simp
    have "r_buf r' = (take ?br (r_buf r) @ chunk)
        @ map (file_byte s ?n) [?p + cnt..<?p + ?t] @ drop (?br + ?t) (r_buf r)"
      using r'(4) e1 e2 cnt(2) by (simp add: f2)
    also have "\<dots> = take ?br (r_buf r) @ map (file_byte s ?n) [?p..<?p + ?t]
        @ drop (?br + ?t) (r_buf r)"
      using e3 by (simp add: chunk)
    finally have buf: "r_buf r' = take ?br (r_buf r) @ map (file_byte s ?n) [?p..<?p + ?t]
        @ drop (?br + ?t) (r_buf r)" .
    show ?thesis
      using step r'(1,2,3) buf cnt(2) by (simp add: f2)
  qed
qed


lemma contents_slice:
  "p + cnt \<le> isize n \<Longrightarrow>
     take cnt (drop p (contents s n)) = map (file_byte s n) [p..<p + cnt]"
  by (simp add: contents_def drop_map take_map)

text \<open>A read through an open descriptor whose pointer is before the end of a file without
  holes.\<close>

lemma fread_open:
  assumes fd: "0 \<le> fd" "fd < int NUM_INODES"
    and f_def: "f = fdt s ! nat fd" and n_eq: "n = inodes s ! nat (inode f)"
    and cnt_def: "cnt = min (nat len) (isize n - rwptr f)"
    and h: "0 < len" "0 < inode f" "inode f < int NUM_INODES" "rwptr f < isize n"
      "no_holes s n" "\<forall>p. length (disk s p) = BLOCK_SIZE" "cnt \<le> length buf"
  shows "sfs_fread s fd buf len =
             Some (int cnt, take cnt (drop (rwptr f) (contents s n)) @ drop cnt buf,
                   s\<lparr>fdt := (fdt s)[nat fd := f\<lparr>rwptr := rwptr f + cnt\<rparr>]\<rparr>)"
proof -
  define ino where "ino = nat (inode f)"
  have n_def: "n = inodes s ! ino" using n_eq by (simp add: ino_def)
  show ?thesis
  proof -
    from h(5) have sz: "isize n \<le> 274432" by (simp add: no_holes_def)
    then have conv: "to_int32 (int (isize n) - int (rwptr f)) = int (isize n - rwptr f)"
      using h(4) by (subst to_int32_id) simp_all
    have btr: "nat (min len (to_int32 (int (isize n) - int (rwptr f)))) = cnt"
      unfolding conv cnt_def using h(1) by (simp add: min_def)
    define r0 where "r0 = \<lparr>r_rwptr = rwptr f, r_buf = buf, bytes_read = 0,
       bytes_to_read = cnt, r_current_block = rwptr f div BLOCK_SIZE,
       did_write_to_buf = True, r_ptr_buff = [], r_did_load_ptr_buff = False\<rparr>"
    have "\<exists>r'. fread_loop s ino r0 = Some r'
       \<and> r_rwptr r' = r_rwptr r0 + bytes_to_read r0
       \<and> bytes_read r' = bytes_read r0 + bytes_to_read r0
       \<and> r_buf r' = take (bytes_read r0) (r_buf r0)
           @ map (file_byte s (inodes s ! ino)) [r_rwptr r0..<r_rwptr r0 + bytes_to_read r0]
           @ drop (bytes_read r0 + bytes_to_read r0) (r_buf r0)"
    proof (rule fread_loop_spec)
      show "no_holes s (inodes s ! ino)" using h(5) by (simp add: n_def)
      show "\<forall>p. length (disk s p) = 1024" using h(6) by simp
      show "r_rwptr r0 + bytes_to_read r0 \<le> isize (inodes s ! ino)"
        using h(4) by (simp add: r0_def cnt_def n_def)
      show "bytes_read r0 + bytes_to_read r0 \<le> length (r_buf r0)"
        using h(7) by (simp add: r0_def)
    qed (simp_all add: r0_def)
    then obtain r' where r': "fread_loop s ino r0 = Some r'"
      "r_rwptr r' = rwptr f + cnt" "bytes_read r' = cnt"
      "r_buf r' = map (file_byte s n) [rwptr f..<rwptr f + cnt] @ drop cnt buf"
      by (auto simp: r0_def n_def)
    have "rwptr f + cnt \<le> isize n" using h(4) by (simp add: cnt_def)
    then have sl: "take cnt (drop (rwptr f) (contents s n))
        = map (file_byte s n) [rwptr f..<rwptr f + cnt]"
      by (rule contents_slice)
    show ?thesis
      using h(1-4) fd r' btr
      by (simp add: sfs_fread_def Let_def f_def[symmetric] ino_def[symmetric]
          n_def[symmetric] r0_def[symmetric] sl del: const_vals(2))
  qed
qed

text \<open>
  C6. For a descriptor of the table: \<open>sfs_fread\<close> returns 0 and changes nothing when the
  length is not positive, the descriptor is not in use, or its pointer is at or past the
  size. Otherwise, on a file without holes, it copies
  \<open>min(length, size - rwptr)\<close> bytes of the contents from the pointer on into the
  caller's buffer, returns that count and advances the pointer by it.
\<close>

theorem fread_spec:
  assumes "0 \<le> fd" "fd < int NUM_INODES"
  shows "let f = fdt s ! nat fd; n = inodes s ! nat (inode f);
             cnt = min (nat len) (isize n - rwptr f) in
    (len \<le> 0 \<or> inode f \<le> 0 \<or> (inode f < int NUM_INODES \<and> isize n \<le> rwptr f)
       \<longrightarrow> sfs_fread s fd buf len = Some (0, buf, s))
    \<and> (0 < len \<and> 0 < inode f \<and> inode f < int NUM_INODES \<and> rwptr f < isize n
        \<and> no_holes s n \<and> (\<forall>p. length (disk s p) = BLOCK_SIZE) \<and> cnt \<le> length buf
       \<longrightarrow> sfs_fread s fd buf len =
             Some (int cnt, take cnt (drop (rwptr f) (contents s n)) @ drop cnt buf,
                   s\<lparr>fdt := (fdt s)[nat fd := f\<lparr>rwptr := rwptr f + cnt\<rparr>]\<rparr>))"
proof -
  define f where "f = fdt s ! nat fd"
  define ino where "ino = nat (inode f)"
  define n where "n = inodes s ! ino"
  define cnt where "cnt = min (nat len) (isize n - rwptr f)"
  have A: "sfs_fread s fd buf len = Some (0, buf, s)"
    if "len \<le> 0 \<or> inode f \<le> 0 \<or> (inode f < int NUM_INODES \<and> isize n \<le> rwptr f)"
    using that assms by (auto simp: sfs_fread_def Let_def f_def n_def ino_def)
  have B: "sfs_fread s fd buf len =
             Some (int cnt, take cnt (drop (rwptr f) (contents s n)) @ drop cnt buf,
                   s\<lparr>fdt := (fdt s)[nat fd := f\<lparr>rwptr := rwptr f + cnt\<rparr>]\<rparr>)"
    if h: "0 < len" "0 < inode f" "inode f < int NUM_INODES" "rwptr f < isize n"
      "no_holes s n" "\<forall>p. length (disk s p) = BLOCK_SIZE" "cnt \<le> length buf"
    using assms f_def _ cnt_def that
    by (rule fread_open) (simp add: n_def ino_def)
  show ?thesis
    using A B by (simp add: Let_def f_def n_def ino_def cnt_def)
qed

section \<open>Consequences of the invariant\<close>

lemma file_inode_simp [simp]: "file_inode i \<longleftrightarrow> 0 < i \<and> i < 128"
  by (simp add: file_inode_def)

lemma data_region_simp [simp]: "data_region p \<longleftrightarrow> 18 \<le> p \<and> p < 2153"
  by (simp add: data_region_def)

lemma inv_parts:
  assumes "sfs_inv s"
  shows "wf_arrays s" "blocks_inv s" "fdt_inv s"
    "file_inode i \<Longrightarrow> file_inv s (inodes s ! i)"
  using assms unfolding sfs_inv_def by blast+

lemma invD_wf:
  assumes "sfs_inv s"
  shows "length (inodes s) = 128" "length (fdt s) = 128" "length (root s) = 127"
    "length (free_blocks s) = 2135" "i < 128 \<Longrightarrow> length (direct (inodes s ! i)) = 12"
    "length (disk s p) = 1024"
  using inv_parts(1)[OF assms] by (simp_all add: wf_arrays_def)

lemma invD_file:
  assumes "sfs_inv s" "0 < i" "i < 128"
  shows "isize (inodes s ! i) \<le> 274432"
    "b < 268 \<Longrightarrow> (blk s (inodes s ! i) b > 0) = (b * 1024 < isize (inodes s ! i))"
    "link_cnt (inodes s ! i) \<le> 1"
    "link_cnt (inodes s ! i) = 0 \<Longrightarrow> indirect (inodes s ! i) = 0 \<and> isize (inodes s ! i) = 0"
  using inv_parts(4)[OF assms(1), of i] assms(2,3) by (simp_all add: file_inv_def)

lemma blocks_invD:
  assumes "blocks_inv s"
  shows "file_inode i \<Longrightarrow> b < LOOP_BLOCK_LIMIT \<Longrightarrow> blk s (inodes s ! i) b > 0 \<Longrightarrow>
        data_region (blk s (inodes s ! i) b)
        \<and> free_blocks s ! (blk s (inodes s ! i) b - DATA_BLOCKS_OFFSET) = 1"
    and "file_inode i \<Longrightarrow> indirect (inodes s ! i) > 0 \<Longrightarrow>
        data_region (indirect (inodes s ! i))
        \<and> free_blocks s ! (indirect (inodes s ! i) - DATA_BLOCKS_OFFSET) = 1"
    and "file_inode i \<Longrightarrow> file_inode j \<Longrightarrow> b < LOOP_BLOCK_LIMIT \<Longrightarrow> c < LOOP_BLOCK_LIMIT
        \<Longrightarrow> blk s (inodes s ! i) b > 0 \<Longrightarrow> blk s (inodes s ! i) b = blk s (inodes s ! j) c
        \<Longrightarrow> i = j \<and> b = c"
    and "file_inode i \<Longrightarrow> file_inode j \<Longrightarrow> indirect (inodes s ! i) > 0
        \<Longrightarrow> indirect (inodes s ! i) = indirect (inodes s ! j) \<Longrightarrow> i = j"
    and "file_inode i \<Longrightarrow> file_inode j \<Longrightarrow> b < LOOP_BLOCK_LIMIT
        \<Longrightarrow> blk s (inodes s ! i) b > 0 \<Longrightarrow> blk s (inodes s ! i) b \<noteq> indirect (inodes s ! j)"
    and "k < MAX_DATA_BLOCKS_SCALED_DOWN \<Longrightarrow> free_blocks s ! k \<le> 1
        \<and> (free_blocks s ! k = 0 \<longrightarrow> disk s (k + DATA_BLOCKS_OFFSET) = zero_block)"
  using assms unfolding blocks_inv_def by blast+

lemma invD_blk:
  assumes "sfs_inv s" "0 < i" "i < 128" "b < 268" "blk s (inodes s ! i) b > 0"
  shows "18 \<le> blk s (inodes s ! i) b" "blk s (inodes s ! i) b < 2153"
    "free_blocks s ! (blk s (inodes s ! i) b - 18) = 1"
  using blocks_invD(1)[OF inv_parts(2)[OF assms(1)], of i b] assms(2-) by simp_all

lemma invD_idx:
  assumes "sfs_inv s" "0 < i" "i < 128" "indirect (inodes s ! i) > 0"
  shows "18 \<le> indirect (inodes s ! i)" "indirect (inodes s ! i) < 2153"
    "free_blocks s ! (indirect (inodes s ! i) - 18) = 1"
  using blocks_invD(2)[OF inv_parts(2)[OF assms(1)], of i] assms(2-) by simp_all

lemma invD_blk_inj:
  assumes "sfs_inv s" "0 < i" "i < 128" "0 < j" "j < 128" "b < 268" "c < 268"
    "blk s (inodes s ! i) b > 0" "blk s (inodes s ! i) b = blk s (inodes s ! j) c"
  shows "i = j \<and> b = c"
  by (rule blocks_invD(3)[OF inv_parts(2)[OF assms(1)], of i j b c]) (use assms in simp_all)

lemma invD_idx_inj:
  assumes "sfs_inv s" "0 < i" "i < 128" "0 < j" "j < 128"
    "indirect (inodes s ! i) > 0" "indirect (inodes s ! i) = indirect (inodes s ! j)"
  shows "i = j"
  by (rule blocks_invD(4)[OF inv_parts(2)[OF assms(1)], of i j]) (use assms in simp_all)

lemma invD_blk_idx:
  assumes "sfs_inv s" "0 < i" "i < 128" "0 < j" "j < 128" "b < 268"
    "blk s (inodes s ! i) b > 0"
  shows "blk s (inodes s ! i) b \<noteq> indirect (inodes s ! j)"
  by (rule blocks_invD(5)[OF inv_parts(2)[OF assms(1)], of i j b]) (use assms in simp_all)

lemma invD_bitmap:
  assumes "sfs_inv s" "k < 2135"
  shows "free_blocks s ! k \<le> 1" "free_blocks s ! k = 0 \<Longrightarrow> disk s (k + 18) = zero_block"
  using blocks_invD(6)[OF inv_parts(2)[OF assms(1)], of k] assms(2) by simp_all

lemma fdt_invD:
  assumes "fdt_inv s"
  shows "inode (fdt s ! 0) = 0"
    and "0 < j \<Longrightarrow> j < NUM_INODES \<Longrightarrow> inode (fdt s ! j) = - 1
          \<or> (0 < inode (fdt s ! j) \<and> inode (fdt s ! j) < int NUM_INODES
             \<and> link_cnt (inodes s ! nat (inode (fdt s ! j))) = 1)"
    and "j < NUM_INODES \<Longrightarrow> j' < NUM_INODES \<Longrightarrow> 0 < inode (fdt s ! j)
          \<Longrightarrow> inode (fdt s ! j) = inode (fdt s ! j') \<Longrightarrow> j = j'"
  using assms unfolding fdt_inv_def by blast+

lemma invD_fdt:
  assumes "sfs_inv s"
  shows "inode (fdt s ! 0) = 0"
    "0 < j \<Longrightarrow> j < 128 \<Longrightarrow> inode (fdt s ! j) = - 1 \<or>
       (0 < inode (fdt s ! j) \<and> inode (fdt s ! j) < 128
        \<and> link_cnt (inodes s ! nat (inode (fdt s ! j))) = 1)"
    "j < 128 \<Longrightarrow> j' < 128 \<Longrightarrow> 0 < inode (fdt s ! j) \<Longrightarrow>
       inode (fdt s ! j) = inode (fdt s ! j') \<Longrightarrow> j = j'"
  using fdt_invD[OF inv_parts(3)[OF assms]] by simp_all

lemma invD_fdt_bound:
  assumes "sfs_inv s" "j < 128" "0 < inode (fdt s ! j)"
  shows "inode (fdt s ! j) < 128" "link_cnt (inodes s ! nat (inode (fdt s ! j))) = 1"
  using invD_fdt(1)[OF assms(1)] invD_fdt(2)[OF assms(1), of j] assms(2,3)
  by (cases "j = 0"; auto)+

text \<open>A block that the bitmap marks free is referenced by no inode.\<close>

lemma free_not_blk:
  assumes "sfs_inv s" "0 < i" "i < 128" "b < 268" "free_blocks s ! (q - 18) = 0"
  shows "blk s (inodes s ! i) b \<noteq> q \<or> q = 0"
  using invD_blk(3)[OF assms(1-4)] assms(5) by (cases "blk s (inodes s ! i) b > 0") auto

lemma free_not_idx:
  assumes "sfs_inv s" "0 < i" "i < 128" "free_blocks s ! (q - 18) = 0"
  shows "indirect (inodes s ! i) \<noteq> q \<or> q = 0"
  using invD_idx(3)[OF assms(1-3)] assms(4) by (cases "indirect (inodes s ! i) > 0") auto


section \<open>Steps that keep the invariant\<close>

lemma fdt_inv_frame:
  assumes "fdt_inv c"
    and fdt': "\<forall>j<128. inode (fdt c' ! j) = inode (fdt c ! j)"
    and lk: "\<forall>i<128. 0 < i \<longrightarrow> link_cnt (inodes c ! i) = 1 \<longrightarrow> link_cnt (inodes c' ! i) = 1"
  shows "fdt_inv c'"
proof -
  note D = fdt_invD[OF assms(1)]
  have fdtD: "inode (fdt c' ! j) = inode (fdt c ! j)" if "j < 128" for j
    using fdt' that by blast
  show ?thesis
    unfolding fdt_inv_def
  proof (intro conjI allI impI)
    show "inode (fdt c' ! 0) = 0" using D(1) fdtD[of 0] by simp
  next
    fix j assume j: "0 < j \<and> j < NUM_INODES"
    then have j': "0 < j" "j < 128" by simp_all
    show "inode (fdt c' ! j) = - 1
          \<or> (0 < inode (fdt c' ! j) \<and> inode (fdt c' ! j) < int NUM_INODES
             \<and> link_cnt (inodes c' ! nat (inode (fdt c' ! j))) = 1)"
    proof (cases "inode (fdt c ! j) = - 1")
      case True
      then show ?thesis using fdtD[OF j'(2)] by simp
    next
      case False
      with D(2)[of j] j' have h: "0 < inode (fdt c ! j)" "inode (fdt c ! j) < 128"
        "link_cnt (inodes c ! nat (inode (fdt c ! j))) = 1" by auto
      then have "nat (inode (fdt c ! j)) < 128" "0 < nat (inode (fdt c ! j))" by simp_all
      with lk h(3) have "link_cnt (inodes c' ! nat (inode (fdt c ! j))) = 1" by blast
      with h show ?thesis using fdtD[OF j'(2)] by simp
    qed
  next
    fix j j'
    assume a: "j < NUM_INODES \<and> j' < NUM_INODES \<and> 0 < inode (fdt c' ! j)
          \<and> inode (fdt c' ! j) = inode (fdt c' ! j')"
    then have "j < NUM_INODES" "j' < NUM_INODES" "0 < inode (fdt c ! j)"
      "inode (fdt c ! j) = inode (fdt c ! j')"
      using fdtD[of j] fdtD[of j'] by simp_all
    then show "j = j'" by (rule D(3))
  qed
qed


text \<open>
  One block of a file is written: block \<open>b\<close> of inode \<open>x\<close> is, or becomes, block \<open>q\<close>
  of the disk, the size grows to cover the bytes written (up to offset \<open>e\<close>), and only
  \<open>q\<close> and the index block of \<open>x\<close> change on the disk.
\<close>

lemma inv_data_step:
  assumes inv: "sfs_inv c" and x: "0 < x" "x < 128"
    and lc: "link_cnt (inodes c ! x) = 1"
    and b: "b < 268" "b * 1024 \<le> isize (inodes c ! x)" "b * 1024 < e" "e \<le> (b + 1) * 1024"
    and wf': "wf_arrays c'"
    and fdt': "\<forall>j<128. inode (fdt c' ! j) = inode (fdt c ! j)"
    and meta: "\<forall>i<128. link_cnt (inodes c' ! i) = link_cnt (inodes c ! i)
                 \<and> indirect (inodes c' ! i) = indirect (inodes c ! i)"
    and sz: "\<forall>i<128. isize (inodes c' ! i)
                 = (if i = x then max (isize (inodes c ! x)) e else isize (inodes c ! i))"
    and blks: "\<forall>i b'. 0 < i \<and> i < 128 \<and> b' < 268 \<longrightarrow> blk c' (inodes c' ! i) b'
                 = (if i = x \<and> b' = b then q else blk c (inodes c ! i) b')"
    and q: "(blk c (inodes c ! x) b = q \<and> 0 < q \<and> free_blocks c' = free_blocks c)
            \<or> (blk c (inodes c ! x) b = 0 \<and> 18 \<le> q \<and> q < 2153
                \<and> free_blocks c ! (q - 18) = 0
                \<and> free_blocks c' = (free_blocks c)[q - 18 := 1])"
    and dsk: "\<forall>r. r \<noteq> q \<longrightarrow> r \<noteq> indirect (inodes c ! x) \<longrightarrow> disk c' r = disk c r"
  shows "sfs_inv c'"
proof -
  let ?B = "\<lambda>i b. blk c (inodes c ! i) b" and ?B' = "\<lambda>i b. blk c' (inodes c' ! i) b"
  let ?I = "\<lambda>i. indirect (inodes c ! i)"
  note wf = invD_wf[OF inv]
  have metaD: "link_cnt (inodes c' ! i) = link_cnt (inodes c ! i)"
    "indirect (inodes c' ! i) = indirect (inodes c ! i)" if "i < 128" for i
    using meta that by blast+
  have szD: "isize (inodes c' ! i)
      = (if i = x then max (isize (inodes c ! x)) e else isize (inodes c ! i))" if "i < 128" for i
    using sz that by blast
  have qreg: "18 \<le> q" "q < 2153"
    using q invD_blk(1,2)[OF inv x b(1)] by auto
  have fbq: "free_blocks c' ! (q - 18) = 1"
    using q invD_blk(3)[OF inv x b(1)] qreg wf(4) by auto
  have fbo: "free_blocks c' ! k = free_blocks c ! k" if "k \<noteq> q - 18" for k
    using q that by auto
  have qfresh: "?B i b' \<noteq> q" if "0 < i" "i < 128" "b' < 268" "\<not> (i = x \<and> b' = b)" for i b'
  proof (cases "?B x b = q \<and> 0 < q")
    case True
    with invD_blk_inj[OF inv x that(1,2) b(1) that(3)] that(4) show ?thesis by auto
  next
    case False
    with q have "free_blocks c ! (q - 18) = 0" by auto
    from free_not_blk[OF inv that(1-3) this] qreg show ?thesis by auto
  qed
  have qidx: "?I i \<noteq> q" if "0 < i" "i < 128" for i
  proof (cases "?B x b = q \<and> 0 < q")
    case True
    with invD_blk_idx[OF inv x that b(1)] show ?thesis by auto
  next
    case False
    with q have "free_blocks c ! (q - 18) = 0" by auto
    from free_not_idx[OF inv that this] qreg show ?thesis by auto
  qed
  have B': "?B' i b' = (if i = x \<and> b' = b then q else ?B i b')"
    if "0 < i" "i < 128" "b' < 268" for i b'
    using blks that by blast
  have B'x: "?B' x b = q" using B'[OF x b(1)] by simp
  have B'o: "?B' i b' = ?B i b'" if "0 < i" "i < 128" "b' < 268" "\<not> (i = x \<and> b' = b)" for i b'
    using B'[OF that(1-3)] that(4) by auto
  have finv: "file_inv c' (inodes c' ! i)" if i: "file_inode i" for i
  proof (cases "i = x")
    case False
    with invD_file[OF inv, of i] i metaD[of i] szD[of i] B'[of i] show ?thesis
      by (simp add: file_inv_def)
  next
    case True
    have s1: "isize (inodes c' ! x) = max (isize (inodes c ! x)) e" using szD[of x] x by simp
    have "isize (inodes c' ! x) \<le> 274432"
      using invD_file(1)[OF inv x] b s1 by simp
    moreover have "(?B' x b' > 0) = (b' * 1024 < isize (inodes c' ! x))" if "b' < 268" for b'
    proof -
      consider "b' = b" | "b' < b" | "b < b'" by linarith
      then show ?thesis
      proof cases
        case 1
        then show ?thesis using B'[OF x that] qreg b s1 by simp
      next
        case 2
        then have "b' * 1024 < isize (inodes c ! x)" using b(2) by simp
        with 2 show ?thesis using B'[OF x that] invD_file(2)[OF inv x that] s1 by simp
      next
        case 3
        then have "e \<le> b' * 1024" using b(4) by simp
        with 3 show ?thesis using B'[OF x that] invD_file(2)[OF inv x that] s1 by auto
      qed
    qed
    moreover have "link_cnt (inodes c' ! x) = 1" using metaD[of x] x lc by simp
    ultimately show ?thesis using True by (simp add: file_inv_def)
  qed
  have blocks: "blocks_inv c'"
    unfolding blocks_inv_def
  proof (intro conjI allI impI)
    fix i b'
    assume a: "file_inode i \<and> b' < LOOP_BLOCK_LIMIT \<and> 0 < ?B' i b'"
    then have i: "0 < i" "i < 128" "b' < 268" by simp_all
    show "data_region (?B' i b')"
      using B'[OF i] qreg invD_blk(1,2)[OF inv i] a by auto
    show "free_blocks c' ! (?B' i b' - DATA_BLOCKS_OFFSET) = 1"
    proof (cases "i = x \<and> b' = b")
      case True
      then show ?thesis using B'x fbq by simp
    next
      case False
      then have e: "?B' i b' = ?B i b'" using B'o[OF i] by auto
      with a have pos: "0 < ?B i b'" by simp
      have "?B i b' \<noteq> q" using qfresh[OF i False] .
      with invD_blk(1)[OF inv i pos] qreg have "?B i b' - 18 \<noteq> q - 18" by simp
      from fbo[OF this] invD_blk(3)[OF inv i pos] e show ?thesis by simp
    qed
  next
    fix i assume a: "file_inode i \<and> 0 < indirect (inodes c' ! i)"
    then have i: "0 < i" "i < 128" by simp_all
    have e: "indirect (inodes c' ! i) = ?I i" using metaD i by simp
    with a have pos: "0 < ?I i" by simp
    show "data_region (indirect (inodes c' ! i))"
      using invD_idx(1,2)[OF inv i pos] e by simp
    have "?I i - 18 \<noteq> q - 18" using qidx[OF i] invD_idx(1)[OF inv i pos] qreg by simp
    from fbo[OF this] invD_idx(3)[OF inv i pos] e
    show "free_blocks c' ! (indirect (inodes c' ! i) - DATA_BLOCKS_OFFSET) = 1" by simp
  next
    fix i b1 j b2
    assume a: "file_inode i \<and> file_inode j \<and> b1 < LOOP_BLOCK_LIMIT \<and> b2 < LOOP_BLOCK_LIMIT
        \<and> 0 < ?B' i b1 \<and> ?B' i b1 = ?B' j b2"
    then have i: "0 < i" "i < 128" "b1 < 268" and j: "0 < j" "j < 128" "b2 < 268" by simp_all
    show "i = j" "b1 = b2"
    proof -
      have "i = j \<and> b1 = b2"
      proof (cases "i = x \<and> b1 = b")
        case True
        show ?thesis
        proof (cases "j = x \<and> b2 = b")
          case True
          with \<open>i = x \<and> b1 = b\<close> show ?thesis by simp
        next
          case False
          with True a B'x B'o[OF j False] qfresh[OF j False] show ?thesis by simp
        qed
      next
        case False
        show ?thesis
        proof (cases "j = x \<and> b2 = b")
          case True
          with False a B'x B'o[OF i False] qfresh[OF i False] show ?thesis by simp
        next
          case F2: False
          with a B'o[OF i False] B'o[OF j F2] have "0 < ?B i b1" "?B i b1 = ?B j b2" by simp_all
          from invD_blk_inj[OF inv i(1,2) j(1,2) i(3) j(3) this] show ?thesis .
        qed
      qed
      then show "i = j" "b1 = b2" by simp_all
    qed
  next
    fix i j
    assume a: "file_inode i \<and> file_inode j \<and> 0 < indirect (inodes c' ! i)
        \<and> indirect (inodes c' ! i) = indirect (inodes c' ! j)"
    then have i: "0 < i" "i < 128" and j: "0 < j" "j < 128" by simp_all
    with a metaD[of i] metaD[of j] have "0 < ?I i" "?I i = ?I j" by simp_all
    from invD_idx_inj[OF inv i j this] show "i = j" .
  next
    fix i b1 j
    assume a: "file_inode i \<and> file_inode j \<and> b1 < LOOP_BLOCK_LIMIT \<and> 0 < ?B' i b1"
    then have i: "0 < i" "i < 128" "b1 < 268" and j: "0 < j" "j < 128" by simp_all
    have e: "indirect (inodes c' ! j) = ?I j" using metaD j by simp
    show "?B' i b1 \<noteq> indirect (inodes c' ! j)"
    proof (cases "i = x \<and> b1 = b")
      case True
      then show ?thesis using B'x qidx[OF j] e by simp
    next
      case False
      with a B'o[OF i False] have "0 < ?B i b1" by simp
      from invD_blk_idx[OF inv i(1,2) j i(3) this] B'o[OF i False] e show ?thesis by simp
    qed
  next
    fix k assume k: "k < MAX_DATA_BLOCKS_SCALED_DOWN"
    then have k': "k < 2135" by simp
    show "free_blocks c' ! k \<le> 1"
    proof (cases "k = q - 18")
      case True
      then show ?thesis using fbq by simp
    next
      case False
      from fbo[OF this] invD_bitmap(1)[OF inv k'] show ?thesis by simp
    qed
    show "disk c' (k + DATA_BLOCKS_OFFSET) = zero_block" if z: "free_blocks c' ! k = 0"
    proof -
      from z fbq have nq: "k \<noteq> q - 18" by auto
      from fbo[OF this] z have z0: "free_blocks c ! k = 0" by simp
      have "k + 18 \<noteq> q" using nq by auto
      moreover have "k + 18 \<noteq> ?I x"
      proof (cases "0 < ?I x")
        case True
        show ?thesis
        proof
          assume "k + 18 = ?I x"
          then have "?I x - 18 = k" by arith
          with invD_idx(3)[OF inv x True] z0 show False by simp
        qed
      next
        case False
        then show ?thesis by simp
      qed
      ultimately have "disk c' (k + 18) = disk c (k + 18)" using dsk by simp
      with invD_bitmap(2)[OF inv k' z0] show "disk c' (k + DATA_BLOCKS_OFFSET) = zero_block"
        by simp
    qed
  qed
  have "fdt_inv c'"
    using inv_parts(3)[OF inv] fdt'
  proof (rule fdt_inv_frame)
    show "\<forall>i<128. 0 < i \<longrightarrow> link_cnt (inodes c ! i) = 1 \<longrightarrow> link_cnt (inodes c' ! i) = 1"
      using metaD(1) by simp
  qed
  with wf' finv blocks show ?thesis
    by (simp add: sfs_inv_def del: file_inode_simp)
qed


text \<open>The index block of inode \<open>x\<close> is allocated: a free block \<open>qi\<close>, which holds zeros.\<close>

lemma inv_index_step:
  assumes inv: "sfs_inv c" and x: "0 < x" "x < 128"
    and lc: "link_cnt (inodes c ! x) = 1"
    and idx0: "indirect (inodes c ! x) = 0"
    and qi: "18 \<le> qi" "qi < 2153" "free_blocks c ! (qi - 18) = 0"
    and wf': "wf_arrays c'"
    and fdt': "\<forall>j<128. inode (fdt c' ! j) = inode (fdt c ! j)"
    and meta: "\<forall>i<128. link_cnt (inodes c' ! i) = link_cnt (inodes c ! i)
                 \<and> isize (inodes c' ! i) = isize (inodes c ! i)
                 \<and> indirect (inodes c' ! i) = (if i = x then qi else indirect (inodes c ! i))"
    and blks: "\<forall>i b'. 0 < i \<and> i < 128 \<and> b' < 268 \<longrightarrow>
                 blk c' (inodes c' ! i) b' = blk c (inodes c ! i) b'"
    and fb: "free_blocks c' = (free_blocks c)[qi - 18 := 1]"
    and dsk: "\<forall>r. disk c' r = disk c r"
  shows "sfs_inv c'"
proof -
  let ?B = "\<lambda>i b. blk c (inodes c ! i) b" and ?B' = "\<lambda>i b. blk c' (inodes c' ! i) b"
  let ?I = "\<lambda>i. indirect (inodes c ! i)" and ?I' = "\<lambda>i. indirect (inodes c' ! i)"
  note wf = invD_wf[OF inv]
  have metaD: "link_cnt (inodes c' ! i) = link_cnt (inodes c ! i)"
    "isize (inodes c' ! i) = isize (inodes c ! i)"
    "?I' i = (if i = x then qi else ?I i)" if "i < 128" for i
    using meta that by blast+
  have B': "?B' i b' = ?B i b'" if "0 < i" "i < 128" "b' < 268" for i b'
    using blks that by blast
  have fbq: "free_blocks c' ! (qi - 18) = 1" using fb qi wf(4) by simp
  have fbo: "free_blocks c' ! k = free_blocks c ! k" if "k \<noteq> qi - 18" for k
    using fb that by simp
  have qblk: "?B i b' \<noteq> qi" if "0 < i" "i < 128" "b' < 268" for i b'
    using free_not_blk[OF inv that qi(3)] qi(1) by auto
  have qidx: "?I i \<noteq> qi" if "0 < i" "i < 128" for i
    using free_not_idx[OF inv that qi(3)] qi(1) by auto
  have I'x: "?I' x = qi" using metaD(3)[of x] x by simp
  have I'o: "?I' i = ?I i" if "i < 128" "i \<noteq> x" for i using metaD(3)[of i] that by simp
  have finv: "file_inv c' (inodes c' ! i)" if i: "file_inode i" for i
    using invD_file[OF inv, of i] i metaD[of i] B'[of i] lc
    by (cases "i = x") (simp_all add: file_inv_def)
  have blocks: "blocks_inv c'"
    unfolding blocks_inv_def
  proof (intro conjI allI impI)
    fix i b'
    assume a: "file_inode i \<and> b' < LOOP_BLOCK_LIMIT \<and> 0 < ?B' i b'"
    then have i: "0 < i" "i < 128" "b' < 268" by simp_all
    from a B'[OF i] have pos: "0 < ?B i b'" by simp
    show "data_region (?B' i b')"
      using B'[OF i] invD_blk(1,2)[OF inv i pos] by simp
    have "?B i b' - 18 \<noteq> qi - 18" using qblk[OF i] invD_blk(1)[OF inv i pos] qi(1) by simp
    from fbo[OF this] invD_blk(3)[OF inv i pos] B'[OF i]
    show "free_blocks c' ! (?B' i b' - DATA_BLOCKS_OFFSET) = 1" by simp
  next
    fix i assume a: "file_inode i \<and> 0 < ?I' i"
    then have i: "0 < i" "i < 128" by simp_all
    show "data_region (?I' i)"
    proof (cases "i = x")
      case True then show ?thesis using I'x qi by simp
    next
      case False
      with a I'o[OF i(2)] have "0 < ?I i" by simp
      from invD_idx(1,2)[OF inv i this] I'o[OF i(2) False] show ?thesis by simp
    qed
    show "free_blocks c' ! (?I' i - DATA_BLOCKS_OFFSET) = 1"
    proof (cases "i = x")
      case True then show ?thesis using I'x fbq by simp
    next
      case False
      with a I'o[OF i(2)] have pos: "0 < ?I i" by simp
      have "?I i - 18 \<noteq> qi - 18" using qidx[OF i] invD_idx(1)[OF inv i pos] qi(1) by simp
      from fbo[OF this] invD_idx(3)[OF inv i pos] I'o[OF i(2) False] show ?thesis by simp
    qed
  next
    fix i b1 j b2
    assume a: "file_inode i \<and> file_inode j \<and> b1 < LOOP_BLOCK_LIMIT \<and> b2 < LOOP_BLOCK_LIMIT
        \<and> 0 < ?B' i b1 \<and> ?B' i b1 = ?B' j b2"
    then have i: "0 < i" "i < 128" "b1 < 268" and j: "0 < j" "j < 128" "b2 < 268" by simp_all
    with a B'[OF i] B'[OF j] have "0 < ?B i b1" "?B i b1 = ?B j b2" by simp_all
    from invD_blk_inj[OF inv i(1,2) j(1,2) i(3) j(3) this] show "i = j" "b1 = b2" by simp_all
  next
    fix i j
    assume a: "file_inode i \<and> file_inode j \<and> 0 < ?I' i \<and> ?I' i = ?I' j"
    then have i: "0 < i" "i < 128" and j: "0 < j" "j < 128" by simp_all
    show "i = j"
    proof (cases "i = x")
      case True
      show ?thesis
      proof (rule ccontr)
        assume "i \<noteq> j"
        with True have "j \<noteq> x" by simp
        with a True I'x I'o[OF j(2)] qidx[OF j] show False by simp
      qed
    next
      case False
      show ?thesis
      proof (cases "j = x")
        case True
        with a False I'x I'o[OF i(2) False] qidx[OF i] show ?thesis by simp
      next
        case F2: False
        with a False I'o[OF i(2)] I'o[OF j(2)] have "0 < ?I i" "?I i = ?I j" by simp_all
        from invD_idx_inj[OF inv i j this] show ?thesis .
      qed
    qed
  next
    fix i b1 j
    assume a: "file_inode i \<and> file_inode j \<and> b1 < LOOP_BLOCK_LIMIT \<and> 0 < ?B' i b1"
    then have i: "0 < i" "i < 128" "b1 < 268" and j: "0 < j" "j < 128" by simp_all
    from a B'[OF i] have pos: "0 < ?B i b1" by simp
    show "?B' i b1 \<noteq> ?I' j"
    proof (cases "j = x")
      case True then show ?thesis using I'x B'[OF i] qblk[OF i] by simp
    next
      case False
      from invD_blk_idx[OF inv i(1,2) j i(3) pos] I'o[OF j(2) False] B'[OF i]
      show ?thesis by simp
    qed
  next
    fix k assume k: "k < MAX_DATA_BLOCKS_SCALED_DOWN"
    then have k': "k < 2135" by simp
    show "free_blocks c' ! k \<le> 1"
    proof (cases "k = qi - 18")
      case True then show ?thesis using fbq by simp
    next
      case False
      from fbo[OF this] invD_bitmap(1)[OF inv k'] show ?thesis by simp
    qed
    show "disk c' (k + DATA_BLOCKS_OFFSET) = zero_block" if z: "free_blocks c' ! k = 0"
    proof -
      from z fbq have nq: "k \<noteq> qi - 18" by auto
      from fbo[OF this] z have z0: "free_blocks c ! k = 0" by simp
      with invD_bitmap(2)[OF inv k' z0] dsk show ?thesis by simp
    qed
  qed
  have "fdt_inv c'"
    using inv_parts(3)[OF inv] fdt'
  proof (rule fdt_inv_frame)
    show "\<forall>i<128. 0 < i \<longrightarrow> link_cnt (inodes c ! i) = 1 \<longrightarrow> link_cnt (inodes c' ! i) = 1"
      using metaD(1) by simp
  qed
  with wf' finv blocks show ?thesis
    by (simp add: sfs_inv_def del: file_inode_simp)
qed

section \<open>The contents of files across a step\<close>

lemma q_fresh:
  assumes inv: "sfs_inv c" and x: "0 < x" "x < 128" and b: "b < 268"
    and q: "(blk c (inodes c ! x) b = q \<and> 0 < q)
            \<or> (18 \<le> q \<and> free_blocks c ! (q - 18) = 0)"
  shows "0 < i \<Longrightarrow> i < 128 \<Longrightarrow> b' < 268 \<Longrightarrow> \<not> (i = x \<and> b' = b) \<Longrightarrow>
           blk c (inodes c ! i) b' \<noteq> q"
    and "0 < i \<Longrightarrow> i < 128 \<Longrightarrow> indirect (inodes c ! i) \<noteq> q"
proof -
  show "blk c (inodes c ! i) b' \<noteq> q"
    if "0 < i" "i < 128" "b' < 268" "\<not> (i = x \<and> b' = b)"
  proof (cases "blk c (inodes c ! x) b = q \<and> 0 < q")
    case True
    show ?thesis
    proof
      assume e: "blk c (inodes c ! i) b' = q"
      with True have "0 < blk c (inodes c ! x) b"
        "blk c (inodes c ! x) b = blk c (inodes c ! i) b'" by simp_all
      from invD_blk_inj[OF inv x that(1,2) b that(3) this] that(4) show False by blast
    qed
  next
    case False
    with q have f: "free_blocks c ! (q - 18) = 0" and g: "18 \<le> q" by auto
    from free_not_blk[OF inv that(1-3) f] g show ?thesis by auto
  qed
  show "indirect (inodes c ! i) \<noteq> q" if "0 < i" "i < 128"
  proof (cases "blk c (inodes c ! x) b = q \<and> 0 < q")
    case True
    with invD_blk_idx[OF inv x that b] show ?thesis by metis
  next
    case False
    with q have f: "free_blocks c ! (q - 18) = 0" and g: "18 \<le> q" by auto
    from free_not_idx[OF inv that f] g show ?thesis by auto
  qed
qed

lemma blk_frame:
  assumes "indirect n = 0 \<or> disk c' (indirect n) = disk c (indirect n)"
  shows "blk c' n b = blk c n b"
  using assms by (auto simp: blk_def ptrs_of_def)

lemma splice_nth:
  assumes "off \<le> length old"
  shows "j < off \<Longrightarrow> (take off old @ d @ drop (off + length d) old) ! j = old ! j"
    and "off \<le> j \<Longrightarrow> j < off + length d \<Longrightarrow>
           (take off old @ d @ drop (off + length d) old) ! j = d ! (j - off)"
    and "off + length d \<le> j \<Longrightarrow> j < length old \<Longrightarrow>
           (take off old @ d @ drop (off + length d) old) ! j = old ! j"
proof -
  have l: "length (take off old) = off" using assms by simp
  show "(take off old @ d @ drop (off + length d) old) ! j = old ! j" if "j < off"
    using that l by (simp add: nth_append)
  show "(take off old @ d @ drop (off + length d) old) ! j = d ! (j - off)"
    if "off \<le> j" "j < off + length d"
  proof -
    have "(take off old @ d @ drop (off + length d) old) ! j
          = (d @ drop (off + length d) old) ! (j - off)"
      using that l by (metis nth_append not_less)
    also have "\<dots> = d ! (j - off)"
    proof -
      have "j - off < length d" using that by arith
      then show ?thesis by (simp add: nth_append)
    qed
    finally show ?thesis .
  qed
  show "(take off old @ d @ drop (off + length d) old) ! j = old ! j"
    if "off + length d \<le> j" "j < length old"
  proof -
    have "(take off old @ d @ drop (off + length d) old) ! j
          = (d @ drop (off + length d) old) ! (j - off)"
      using that l by (metis nth_append not_less le_add1 le_trans)
    also have "\<dots> = drop (off + length d) old ! (j - off - length d)"
      using that by (metis nth_append not_less le_diff_conv2 add.commute le_add1 le_trans)
    also have "\<dots> = old ! j"
    proof -
      have "off + length d + (j - off - length d) = j" using that by arith
      then show ?thesis using that by simp
    qed
    finally show ?thesis .
  qed
qed

lemma block_of_offset:
  "k div 1024 = b \<longleftrightarrow> b * 1024 \<le> k \<and> k < b * 1024 + (1024::nat)"
proof
  assume "k div 1024 = b"
  then have "k = b * 1024 + k mod 1024" by (metis mult.commute div_mult_mod_eq)
  moreover have "k mod 1024 < 1024" by simp
  ultimately show "b * 1024 \<le> k \<and> k < b * 1024 + 1024" by linarith
next
  assume a: "b * 1024 \<le> k \<and> k < b * 1024 + 1024"
  then have "k - b * 1024 < 1024" "k = (k - b * 1024) + b * 1024" by linarith+
  then show "k div 1024 = b"
    by (metis div_mult_self1_is_m add.commute div_less div_mult_self3 zero_less_numeral
        add_cancel_right_left zero_neq_numeral)
qed

lemma block_below: "k < sz \<Longrightarrow> k div 1024 * 1024 < (sz::nat)"
  by (meson div_times_less_eq_dividend le_less_trans)

lemma k268: "k < 274432 \<Longrightarrow> k div 1024 < (268::nat)"
  by simp

lemma mod_in_block: "k div 1024 = b \<Longrightarrow> (k::nat) = b * 1024 + k mod 1024"
  by (metis mult.commute div_mult_mod_eq)


text \<open>The contents after a step that writes \<open>d\<close> at offset \<open>p\<close> inside block \<open>b\<close>.\<close>

lemma contents_data_step:
  assumes inv: "sfs_inv c" and x: "0 < x" "x < 128"
    and b: "b < 268" "p div 1024 = b" "p \<le> isize (inodes c ! x)" "0 < length d"
           "length d \<le> 1024 - p mod 1024"
    and sz: "isize (inodes c' ! x) = max (isize (inodes c ! x)) (p + length d)"
    and blkx: "\<forall>b'<268. blk c' (inodes c' ! x) b'
                 = (if b' = b then q else blk c (inodes c ! x) b')"
    and q: "(blk c (inodes c ! x) b = q \<and> 0 < q \<and> old = disk c q)
            \<or> (blk c (inodes c ! x) b = 0 \<and> 18 \<le> q \<and> free_blocks c ! (q - 18) = 0
                \<and> old = zero_block)"
    and dq: "disk c' q = take (p mod 1024) old @ d @ drop (p mod 1024 + length d) old"
    and dsk: "\<forall>r. r \<noteq> q \<longrightarrow> r \<noteq> indirect (inodes c ! x) \<longrightarrow> disk c' r = disk c r"
  shows "contents c' (inodes c' ! x)
         = take p (contents c (inodes c ! x)) @ d @ drop (p + length d) (contents c (inodes c ! x))"
proof -
  let ?n = "inodes c ! x" and ?n' = "inodes c' ! x"
  let ?C = "contents c ?n" and ?cnt = "length d"
  define off where "off = p mod 1024"
  have off: "off < 1024" by (simp add: off_def)
  have cnt: "?cnt \<le> 1024 - off" using b(5) by (simp only: off_def)
  have dq': "disk c' q = take off old @ d @ drop (off + ?cnt) old"
    using dq by (simp only: off_def)
  have lC: "length ?C = isize ?n" by (simp add: contents_def)
  have lold: "length old = 1024"
    using q invD_wf(6)[OF inv] by (auto simp: zero_block_def)
  have q': "(blk c ?n b = q \<and> 0 < q) \<or> (18 \<le> q \<and> free_blocks c ! (q - 18) = 0)"
    using q by auto
  note fresh = q_fresh[OF inv x b(1) q']
  have pb: "p = b * 1024 + off"
    using mod_in_block[OF b(2)] by (simp only: off_def)
  have newcase: "isize ?n = p \<and> off = 0" if "blk c ?n b = 0"
  proof -
    from that invD_file(2)[OF inv x b(1)] have "\<not> b * 1024 < isize ?n" by simp
    with pb b(3) show ?thesis by linarith
  qed
  have pe: "p + ?cnt \<le> b * 1024 + 1024" using pb cnt off by linarith
  have pC: "p \<le> length ?C" using lC b(3) by simp
  have offold: "off \<le> length old" using lold off by simp
  show ?thesis
  proof (rule nth_equalityI)
    show "length (contents c' ?n') = length (take p ?C @ d @ drop (p + ?cnt) ?C)"
      using sz lC b(3) by (simp add: contents_def)
  next
    fix k assume "k < length (contents c' ?n')"
    then have k: "k < max (isize ?n) (p + ?cnt)" using sz by (simp add: contents_def)
    define r where "r = k mod 1024"
    have r: "r < 1024" by (simp add: r_def)
    have lhs: "contents c' ?n' ! k = disk c' (blk c' ?n' (k div 1024)) ! r"
      using k sz by (simp add: contents_def file_byte_def r_def)
    have "k < 274432" using k invD_file(1)[OF inv x] b(1) pe by linarith
    then have k268: "k div 1024 < 268" by (rule k268)
    have other: "contents c' ?n' ! k = ?C ! k" if ksz: "k < isize ?n" and nb: "k div 1024 \<noteq> b"
    proof -
      have Ck: "?C ! k = disk c (blk c ?n (k div 1024)) ! r"
        using ksz by (simp add: contents_def file_byte_def r_def)
      have pos: "0 < blk c ?n (k div 1024)"
        using invD_file(2)[OF inv x k268] block_below[OF ksz] by blast
      have e: "blk c' ?n' (k div 1024) = blk c ?n (k div 1024)"
        using blkx k268 nb by simp
      have "blk c ?n (k div 1024) \<noteq> q" using fresh(1)[OF x k268] nb by blast
      moreover have "blk c ?n (k div 1024) \<noteq> indirect ?n"
        using invD_blk_idx[OF inv x x k268 pos] .
      ultimately have "disk c' (blk c ?n (k div 1024)) = disk c (blk c ?n (k div 1024))"
        using dsk by blast
      with lhs e Ck show ?thesis by simp
    qed
    have same: "contents c' ?n' ! k = disk c' q ! r" if "k div 1024 = b"
      using lhs that blkx b(1) by simp
    have kr: "k = b * 1024 + r" if "k div 1024 = b"
      using mod_in_block[OF that] by (simp only: r_def)
    have exist: "blk c ?n b = q \<and> 0 < q \<and> old = disk c q" if "isize ?n \<noteq> p \<or> off \<noteq> 0"
      using q newcase that by blast
    have Cq: "?C ! k = disk c q ! r" if "k < isize ?n" "k div 1024 = b" "blk c ?n b = q"
      using that by (simp add: contents_def file_byte_def r_def)
    consider (before) "k < p" | (inside) "p \<le> k" "k < p + ?cnt" | (after) "p + ?cnt \<le> k"
      by linarith
    then show "contents c' ?n' ! k = (take p ?C @ d @ drop (p + ?cnt) ?C) ! k"
    proof cases
      case inside
      have kb: "k div 1024 = b"
        unfolding block_of_offset using pb pe inside by linarith
      have km: "r = off + (k - p)"
        using kr[OF kb] pb inside(1) by linarith
      have "disk c' q ! r = d ! (r - off)"
        unfolding dq' using offold
      proof (rule splice_nth(2))
        show "off \<le> r" using km by simp
        show "r < off + ?cnt" using km inside by linarith
      qed
      moreover have "r - off = k - p" using km by simp
      moreover have "(take p ?C @ d @ drop (p + ?cnt) ?C) ! k = d ! (k - p)"
        using pC inside by (rule splice_nth(2))
      ultimately show ?thesis using same[OF kb] by simp
    next
      case before
      then have ksz: "k < isize ?n" using b(3) by simp
      have rhs: "(take p ?C @ d @ drop (p + ?cnt) ?C) ! k = ?C ! k"
        using pC before by (rule splice_nth(1))
      show ?thesis
      proof (cases "k div 1024 = b")
        case True
        have lt: "r < off"
          using kr[OF True] pb before by linarith
        then have ex: "blk c ?n b = q \<and> 0 < q \<and> old = disk c q"
          by (intro exist) simp
        have "disk c' q ! r = old ! r"
          unfolding dq' using offold lt by (rule splice_nth(1))
        with Cq[OF ksz True] ex same[OF True] rhs show ?thesis by simp
      next
        case False
        with other[OF ksz] rhs show ?thesis by simp
      qed
    next
      case after
      with k have ksz: "k < isize ?n" by simp
      have rhs: "(take p ?C @ d @ drop (p + ?cnt) ?C) ! k = ?C ! k"
        using pC after
      proof (rule splice_nth(3))
        show "k < length ?C" using ksz lC by simp
      qed
      show ?thesis
      proof (cases "k div 1024 = b")
        case True
        have "isize ?n \<noteq> p" using after ksz b(4) by simp
        then have ex: "blk c ?n b = q \<and> 0 < q \<and> old = disk c q"
          by (intro exist) simp
        have ge: "off + ?cnt \<le> r"
          using kr[OF True] pb after by linarith
        have "disk c' q ! r = old ! r"
          unfolding dq' using offold ge
        proof (rule splice_nth(3))
          show "r < length old" using lold r by simp
        qed
        with Cq[OF ksz True] ex same[OF True] rhs show ?thesis by simp
      next
        case False
        with other[OF ksz] rhs show ?thesis by simp
      qed
    qed
  qed
qed

text \<open>The contents of the other files stay.\<close>

lemma contents_other:
  assumes inv: "sfs_inv c" and x: "0 < x" "x < 128" and b: "b < 268"
    and i: "0 < i" "i < 128" "i \<noteq> x" "inodes c' ! i = inodes c ! i"
    and q: "(blk c (inodes c ! x) b = q \<and> 0 < q)
            \<or> (18 \<le> q \<and> free_blocks c ! (q - 18) = 0)"
    and dsk: "\<forall>r. r \<noteq> q \<longrightarrow> r \<noteq> indirect (inodes c ! x) \<longrightarrow> disk c' r = disk c r"
  shows "blk c' (inodes c' ! i) b' = blk c (inodes c ! i) b'"
    and "contents c' (inodes c' ! i) = contents c (inodes c ! i)"
proof -
  let ?n = "inodes c ! i"
  note fresh = q_fresh[OF inv x b q]
  have fr: "indirect ?n = 0 \<or> disk c' (indirect ?n) = disk c (indirect ?n)"
  proof (cases "indirect ?n = 0")
    case False
    then have "indirect ?n \<noteq> indirect (inodes c ! x)"
      using invD_idx_inj[OF inv i(1,2) x] i(3) by auto
    with fresh(2)[OF i(1,2)] dsk show ?thesis by simp
  qed simp
  show B: "blk c' (inodes c' ! i) b' = blk c ?n b'" for b'
    unfolding i(4) using fr by (rule blk_frame)
  have "file_byte c' ?n k = file_byte c ?n k" if "k < isize ?n" for k
  proof -
    have "k < 274432" using that invD_file(1)[OF inv i(1,2)] by simp
    then have k268: "k div 1024 < 268" by (rule k268)
    have pos: "0 < blk c ?n (k div 1024)"
      using invD_file(2)[OF inv i(1,2) k268] block_below[OF that] by blast
    have "blk c ?n (k div 1024) \<noteq> q" using fresh(1)[OF i(1,2) k268] i(3) by blast
    moreover have "blk c ?n (k div 1024) \<noteq> indirect (inodes c ! x)"
      using invD_blk_idx[OF inv i(1,2) x k268 pos] .
    ultimately have "disk c' (blk c ?n (k div 1024)) = disk c (blk c ?n (k div 1024))"
      using dsk by blast
    then show ?thesis using B[of "k div 1024"] i(4) by (simp add: file_byte_def)
  qed
  then show "contents c' (inodes c' ! i) = contents c ?n"
    by (simp add: contents_def i(4))
qed

section \<open>The loop of \<open>sfs_fwrite\<close>\<close>

text \<open>
  While the loop runs, the size in the inode and the index block on the disk lag behind:
  the bytes written so far are recorded in \<open>rwptr_size_offset\<close> and the new pointers
  in \<open>ptr_buff\<close>. \<open>commit\<close> is the file system that the end of \<open>sfs_fwrite\<close> would
  store at this point; the invariant of the loop is the invariant of that state.
\<close>

definition commit :: "nat \<Rightarrow> wstate \<Rightarrow> sfs" where
  "commit x w = (fs w)\<lparr>
     inodes := (inodes (fs w))[x := (inodes (fs w) ! x)\<lparr>isize :=
       nat (int (isize (inodes (fs w) ! x)) + max 0 (rwptr_size_offset w))\<rparr>],
     disk := (if did_load_ptr_buff w
              then (disk (fs w))(indirect (inodes (fs w) ! x) := store_ptrs (ptr_buff w))
              else disk (fs w))\<rparr>"

definition wblk :: "nat \<Rightarrow> wstate \<Rightarrow> nat \<Rightarrow> nat" where
  \<comment> \<open>the block of the file as the loop sees it\<close>
  "wblk x w b =
     (if b < 12 then direct (inodes (fs w) ! x) ! b
      else if b < 268 \<and> did_load_ptr_buff w then ptr_buff w ! (b - 12) else 0)"

definition winv :: "nat \<Rightarrow> nat \<Rightarrow> wstate \<Rightarrow> bool" where
  "winv fd x w \<longleftrightarrow>
     sfs_inv (commit x w) \<and> fd < 128 \<and> 0 < x \<and> x < 128
     \<and> inode (fdt (fs w) ! fd) = int x
     \<and> current_block w = rwptr (fdt (fs w) ! fd) div 1024
     \<and> rwptr_size_offset w = int (rwptr (fdt (fs w) ! fd)) - int (isize (inodes (fs w) ! x))
     \<and> (did_load_ptr_buff w \<longleftrightarrow> 0 < indirect (inodes (fs w) ! x))
     \<and> (did_load_ptr_buff w \<longrightarrow>
          length (ptr_buff w) = 256 \<and> (\<forall>k<256. ptr_buff w ! k < 4294967296))
     \<and> (bytes_written w = 0 \<longrightarrow> commit x w = fs w)"

definition wrote :: "nat \<Rightarrow> nat \<Rightarrow> char list \<Rightarrow> sfs \<Rightarrow> sfs \<Rightarrow> bool" where
  \<comment> \<open>\<open>c'\<close> is \<open>c\<close> after the bytes \<open>d\<close> were written through descriptor \<open>fd\<close> to inode \<open>x\<close>\<close>
  "wrote fd x d c c' \<longleftrightarrow>
     root c' = root c \<and> num_files c' = num_files c \<and> curr_file c' = curr_file c
     \<and> super c' = super c
     \<and> fdt c' = (fdt c)[fd := (fdt c ! fd)\<lparr>rwptr := rwptr (fdt c ! fd) + length d\<rparr>]
     \<and> (\<forall>i<128. i \<noteq> x \<longrightarrow> inodes c' ! i = inodes c ! i)
     \<and> (\<forall>i. 0 < i \<and> i < 128 \<and> i \<noteq> x \<longrightarrow>
          contents c' (inodes c' ! i) = contents c (inodes c ! i))
     \<and> mode (inodes c' ! x) = mode (inodes c ! x)
     \<and> link_cnt (inodes c' ! x) = link_cnt (inodes c ! x)
     \<and> isize (inodes c' ! x) = max (isize (inodes c ! x)) (rwptr (fdt c ! fd) + length d)
     \<and> contents c' (inodes c' ! x)
         = take (rwptr (fdt c ! fd)) (contents c (inodes c ! x)) @ d
           @ drop (rwptr (fdt c ! fd) + length d) (contents c (inodes c ! x))
     \<and> int (used_blocks c') - int (nblocks (isize (inodes c' ! x)))
           - (if indirect (inodes c' ! x) > 0 then 1 else 0)
         = int (used_blocks c) - int (nblocks (isize (inodes c ! x)))
           - (if indirect (inodes c ! x) > 0 then 1 else 0)"

lemma commit_fields [simp]:
  "fdt (commit x w) = fdt (fs w)" "root (commit x w) = root (fs w)"
  "free_blocks (commit x w) = free_blocks (fs w)" "num_files (commit x w) = num_files (fs w)"
  "curr_file (commit x w) = curr_file (fs w)" "super (commit x w) = super (fs w)"
  "length (inodes (commit x w)) = length (inodes (fs w))"
  by (simp_all add: commit_def)

lemma commit_inodes:
  assumes "x < length (inodes (fs w))"
  shows "inodes (commit x w) ! x = (inodes (fs w) ! x)\<lparr>isize :=
       nat (int (isize (inodes (fs w) ! x)) + max 0 (rwptr_size_offset w))\<rparr>"
    and "i \<noteq> x \<Longrightarrow> inodes (commit x w) ! i = inodes (fs w) ! i"
  using assms by (simp_all add: commit_def)

lemma commit_disk:
  "disk (commit x w) r =
     (if did_load_ptr_buff w \<and> r = indirect (inodes (fs w) ! x) then store_ptrs (ptr_buff w)
      else disk (fs w) r)"
  by (simp add: commit_def)

lemma blk_commit:
  assumes "x < length (inodes (fs w))"
    and "did_load_ptr_buff w \<longleftrightarrow> 0 < indirect (inodes (fs w) ! x)"
    and "did_load_ptr_buff w \<longrightarrow>
          length (ptr_buff w) = 256 \<and> (\<forall>k<256. ptr_buff w ! k < 4294967296)"
  shows "blk (commit x w) (inodes (commit x w) ! x) b = wblk x w b"
proof (cases "did_load_ptr_buff w")
  case True
  with assms have "load_ptrs (store_ptrs (ptr_buff w)) = ptr_buff w"
    by (intro load_store_ptrs) auto
  with True assms(1,2) show ?thesis
    by (simp add: blk_def ptrs_of_def wblk_def commit_inodes(1) commit_disk)
next
  case False
  with assms(1,2) show ?thesis
    by (simp add: blk_def ptrs_of_def wblk_def commit_inodes(1))
qed

lemma wroteD:
  assumes "wrote fd x d c c'"
  shows "root c' = root c" "num_files c' = num_files c" "curr_file c' = curr_file c"
    "super c' = super c"
    "fdt c' = (fdt c)[fd := (fdt c ! fd)\<lparr>rwptr := rwptr (fdt c ! fd) + length d\<rparr>]"
    "i < 128 \<Longrightarrow> i \<noteq> x \<Longrightarrow> inodes c' ! i = inodes c ! i"
    "0 < i \<Longrightarrow> i < 128 \<Longrightarrow> i \<noteq> x \<Longrightarrow>
          contents c' (inodes c' ! i) = contents c (inodes c ! i)"
    "mode (inodes c' ! x) = mode (inodes c ! x)"
    "link_cnt (inodes c' ! x) = link_cnt (inodes c ! x)"
    "isize (inodes c' ! x) = max (isize (inodes c ! x)) (rwptr (fdt c ! fd) + length d)"
    "contents c' (inodes c' ! x)
         = take (rwptr (fdt c ! fd)) (contents c (inodes c ! x)) @ d
           @ drop (rwptr (fdt c ! fd) + length d) (contents c (inodes c ! x))"
    "int (used_blocks c') - int (nblocks (isize (inodes c' ! x)))
           - (if indirect (inodes c' ! x) > 0 then 1 else 0)
         = int (used_blocks c) - int (nblocks (isize (inodes c ! x)))
           - (if indirect (inodes c ! x) > 0 then 1 else 0)"
  using assms unfolding wrote_def by blast+

lemma wrote_refl:
  assumes "fd < length (fdt c)" "rwptr (fdt c ! fd) \<le> isize (inodes c ! x)"
  shows "wrote fd x [] c c"
  using assms by (simp add: wrote_def contents_def max_absorb1)

lemma wrote_trans:
  assumes 1: "wrote fd x d1 c c1" and 2: "wrote fd x d2 c1 c2"
    and fd: "fd < length (fdt c)" and p: "rwptr (fdt c ! fd) \<le> isize (inodes c ! x)"
  shows "wrote fd x (d1 @ d2) c c2"
proof -
  let ?p = "rwptr (fdt c ! fd)" and ?C = "contents c (inodes c ! x)"
  let ?C1 = "contents c1 (inodes c1 ! x)"
  note A = wroteD[OF 1] and B = wroteD[OF 2]
  have p1: "rwptr (fdt c1 ! fd) = ?p + length d1"
    using A(5) fd by simp
  have f2: "fdt c2 = (fdt c)[fd := (fdt c ! fd)\<lparr>rwptr := ?p + length (d1 @ d2)\<rparr>]"
    using A(5) B(5) fd by (simp add: add.assoc)
  have C1: "?C1 = take ?p ?C @ d1 @ drop (?p + length d1) ?C"
    using A(11) .
  have lC: "?p \<le> length ?C" using p by (simp add: contents_def)
  have t: "take (?p + length d1) ?C1 = take ?p ?C @ d1"
    unfolding C1 using lC by simp
  have d: "drop (?p + length d1 + length d2) ?C1 = drop (?p + length d1 + length d2) ?C"
    unfolding C1 using lC by (simp add: add.commute add.left_commute)
  have "contents c2 (inodes c2 ! x) = take (?p + length d1) ?C1 @ d2
      @ drop (?p + length d1 + length d2) ?C1"
    using B(11) unfolding p1 .
  then have C2: "contents c2 (inodes c2 ! x)
      = take ?p ?C @ (d1 @ d2) @ drop (?p + length (d1 @ d2)) ?C"
    unfolding t d by (simp add: add.assoc)
  have "isize (inodes c2 ! x) = max (max (isize (inodes c ! x)) (?p + length d1))
      (?p + length d1 + length d2)"
    using A(10) B(10) unfolding p1 by simp
  then have s2: "isize (inodes c2 ! x) = max (isize (inodes c ! x)) (?p + length (d1 @ d2))"
    by simp
  have o: "\<forall>i<128. i \<noteq> x \<longrightarrow> inodes c2 ! i = inodes c ! i"
    using A(6) B(6) by simp
  have oc: "\<forall>i. 0 < i \<and> i < 128 \<and> i \<noteq> x \<longrightarrow>
          contents c2 (inodes c2 ! i) = contents c (inodes c ! i)"
    using A(7) B(7) by simp
  have acc: "int (used_blocks c2) - int (nblocks (isize (inodes c2 ! x)))
           - (if indirect (inodes c2 ! x) > 0 then 1 else 0)
         = int (used_blocks c) - int (nblocks (isize (inodes c ! x)))
           - (if indirect (inodes c ! x) > 0 then 1 else 0)"
    using A(12) B(12) by (rule trans[rotated])
  have m: "root c2 = root c" "num_files c2 = num_files c" "curr_file c2 = curr_file c"
    "super c2 = super c" "mode (inodes c2 ! x) = mode (inodes c ! x)"
    "link_cnt (inodes c2 ! x) = link_cnt (inodes c ! x)"
    using A(1-4,8,9) B(1-4,8,9) by simp_all
  show ?thesis
    unfolding wrote_def using m f2 o oc s2 C2 acc by blast
qed


lemma winvD:
  assumes "winv fd x w"
  shows "sfs_inv (commit x w)" "fd < 128" "0 < x" "x < 128"
    "inode (fdt (fs w) ! fd) = int x"
    "current_block w = rwptr (fdt (fs w) ! fd) div 1024"
    "rwptr_size_offset w = int (rwptr (fdt (fs w) ! fd)) - int (isize (inodes (fs w) ! x))"
    "did_load_ptr_buff w \<longleftrightarrow> 0 < indirect (inodes (fs w) ! x)"
    "did_load_ptr_buff w \<Longrightarrow> length (ptr_buff w) = 256"
    "did_load_ptr_buff w \<Longrightarrow> k < 256 \<Longrightarrow> ptr_buff w ! k < 4294967296"
    "bytes_written w = 0 \<Longrightarrow> commit x w = fs w"
  using assms unfolding winv_def by blast+

lemma winv_facts:
  assumes wi: "winv fd x w"
  shows "length (inodes (fs w)) = 128" "length (fdt (fs w)) = 128"
    "length (free_blocks (fs w)) = 2135" "length (root (fs w)) = 127"
    "length (direct (inodes (fs w) ! x)) = 12"
    "link_cnt (inodes (fs w) ! x) = 1"
    "isize (inodes (commit x w) ! x)
       = max (isize (inodes (fs w) ! x)) (rwptr (fdt (fs w) ! fd))"
    "max (isize (inodes (fs w) ! x)) (rwptr (fdt (fs w) ! fd)) \<le> 274432"
    "blk (commit x w) (inodes (commit x w) ! x) b = wblk x w b"
    "i < 128 \<Longrightarrow> i \<noteq> x \<Longrightarrow> inodes (commit x w) ! i = inodes (fs w) ! i"
proof -
  note W = winvD[OF wi]
  note wf = invD_wf[OF W(1)]
  show li: "length (inodes (fs w)) = 128" using wf(1) by simp
  show "length (fdt (fs w)) = 128" "length (free_blocks (fs w)) = 2135"
    "length (root (fs w)) = 127" using wf(2-4) by simp_all
  have cx: "inodes (commit x w) ! x = (inodes (fs w) ! x)\<lparr>isize :=
       nat (int (isize (inodes (fs w) ! x)) + max 0 (rwptr_size_offset w))\<rparr>"
    using li W(4) by (intro commit_inodes(1)) simp
  show "length (direct (inodes (fs w) ! x)) = 12"
    using wf(5)[OF W(4)] cx by simp
  have "link_cnt (inodes (commit x w) ! nat (inode (fdt (commit x w) ! fd))) = 1"
    using W(1,2) by (rule invD_fdt_bound(2)) (simp add: W(5) W(3))
  then show "link_cnt (inodes (fs w) ! x) = 1" using cx W(5) by simp
  show sz: "isize (inodes (commit x w) ! x)
       = max (isize (inodes (fs w) ! x)) (rwptr (fdt (fs w) ! fd))"
    unfolding cx W(7) by (simp add: max_def)
  show "max (isize (inodes (fs w) ! x)) (rwptr (fdt (fs w) ! fd)) \<le> 274432"
    using invD_file(1)[OF W(1,3,4)] sz by simp
  show "blk (commit x w) (inodes (commit x w) ! x) b = wblk x w b"
    using li W(4) W(8) W(9,10) by (intro blk_commit) auto
  show "i < 128 \<Longrightarrow> i \<noteq> x \<Longrightarrow> inodes (commit x w) ! i = inodes (fs w) ! i"
    using li W(4) by (intro commit_inodes(2)) simp_all
qed

lemma nblocks_in_block:
  assumes "b * 1024 < sz" "sz \<le> b * 1024 + 1024"
  shows "nblocks sz = b + 1"
proof -
  have "(b + 1) * 1024 = b * 1024 + 1024" by simp
  then have "(sz + 1023) div 1024 = b + 1"
    unfolding block_of_offset using assms by linarith
  then show ?thesis by (simp add: nblocks_def)
qed

lemma nblocks_aligned: "nblocks (b * 1024) = b"
proof -
  have "(b * 1024 + 1023) div 1024 = b"
    unfolding block_of_offset by linarith
  then show ?thesis by (simp add: nblocks_def)
qed

lemma count_ones_update:
  "k < length xs \<Longrightarrow> xs ! k = 0 \<Longrightarrow>
     length (filter (\<lambda>v. v = 1) (xs[k := 1 :: nat])) = Suc (length (filter (\<lambda>v. v = 1) xs))"
proof (induction xs arbitrary: k)
  case Nil
  then show ?case by simp
next
  case (Cons a xs)
  then show ?case by (cases k) auto
qed

lemma used_blocks_alloc:
  "k < length (free_blocks c) \<Longrightarrow> free_blocks c ! k = 0 \<Longrightarrow>
     free_blocks c' = (free_blocks c)[k := 1] \<Longrightarrow> used_blocks c' = Suc (used_blocks c)"
  by (simp only: used_blocks_def count_ones_update)

lemma write_chunk_eq:
  assumes "0 < bytes_to_write w1" "bytes_written w1 + bytes_to_write w1 \<le> length buf"
    and "18 \<le> q" "q < 2153" "rwptr_size_offset w1 \<le> 274432"
    and "cnt = min (1024 - rwptr (fdt (fs w1) ! fd) mod 1024) (bytes_to_write w1)"
  shows "write_chunk fd buf (int q - 18) old w1 = Some (False, w1\<lparr>
          fs := (fs w1)\<lparr>
            disk := (disk (fs w1))(q :=
              take (rwptr (fdt (fs w1) ! fd) mod 1024) old @ take cnt (drop (bytes_written w1) buf)
                @ drop (rwptr (fdt (fs w1) ! fd) mod 1024 + cnt) old),
            free_blocks := (free_blocks (fs w1))[q - 18 := 1],
            fdt := (fdt (fs w1))[fd := (fdt (fs w1) ! fd)\<lparr>rwptr :=
               rwptr (fdt (fs w1) ! fd) + cnt\<rparr>]\<rparr>,
          rwptr_size_offset := rwptr_size_offset w1 + int cnt,
          bytes_to_write := bytes_to_write w1 - cnt,
          bytes_written := bytes_written w1 + cnt,
          did_write_to_disk := True,
          current_block := (rwptr (fdt (fs w1) ! fd) + cnt) div 1024\<rparr>)"
proof -
  have c: "0 < cnt" "cnt \<le> bytes_to_write w1" "cnt \<le> 1024"
    using assms(1,6) by auto
  have n: "nat (int q - 18) = q - 18" "nat (int q - 18) + 18 = q"
    using assms(3) by simp_all
  have "\<not> length buf < bytes_written w1 + cnt" using c(2) assms(2) by simp
  moreover have "\<not> (int q - 18 < 0 \<or> 2135 \<le> int q - 18)" using assms(3,4) by simp
  moreover have "\<not> (2 ^ 31 \<le> rwptr_size_offset w1 + int cnt)" using assms(5) c(3) by simp
  ultimately show ?thesis
    using c(1) n assms(1) by (simp add: write_chunk_def Let_def assms(6)[symmetric])
qed


text \<open>
  The second half of an iteration. \<open>w\<close> is the state at the head of the loop (after the
  index block was allocated, if it had to be) and \<open>w1\<close> the state after the block \<open>q\<close>
  of the current position was found or allocated.
\<close>

lemma data_step_core:
  assumes wi: "winv fd x w" and g: "0 < bytes_to_write w" "current_block w < 268"
    and bl: "bytes_written w + bytes_to_write w \<le> length buf"
    and r1: "fdt (fs w1) = fdt (fs w)" "root (fs w1) = root (fs w)"
      "num_files (fs w1) = num_files (fs w)" "curr_file (fs w1) = curr_file (fs w)"
      "super (fs w1) = super (fs w)" "disk (fs w1) = disk (fs w)"
    and r2: "length (inodes (fs w1)) = 128"
      "\<forall>i<128. i \<noteq> x \<longrightarrow> inodes (fs w1) ! i = inodes (fs w) ! i"
      "mode (inodes (fs w1) ! x) = mode (inodes (fs w) ! x)"
      "link_cnt (inodes (fs w1) ! x) = link_cnt (inodes (fs w) ! x)"
      "isize (inodes (fs w1) ! x) = isize (inodes (fs w) ! x)"
      "indirect (inodes (fs w1) ! x) = indirect (inodes (fs w) ! x)"
      "length (direct (inodes (fs w1) ! x)) = 12"
    and r3: "did_load_ptr_buff w1 = did_load_ptr_buff w"
      "did_load_ptr_buff w1 \<longrightarrow>
          length (ptr_buff w1) = 256 \<and> (\<forall>k<256. ptr_buff w1 ! k < 4294967296)"
      "bytes_written w1 = bytes_written w" "bytes_to_write w1 = bytes_to_write w"
      "rwptr_size_offset w1 = rwptr_size_offset w"
    and r4: "\<forall>b'<268. wblk x w1 b' = (if b' = current_block w then q else wblk x w b')"
    and qq: "(wblk x w (current_block w) = q \<and> 0 < q
               \<and> free_blocks (fs w1) = free_blocks (fs w) \<and> old = disk (fs w) q)
            \<or> (wblk x w (current_block w) = 0 \<and> 18 \<le> q \<and> q < 2153
               \<and> free_blocks (fs w) ! (q - 18) = 0
               \<and> free_blocks (fs w1) = (free_blocks (fs w))[q - 18 := 1] \<and> old = zero_block)"
    and cnt: "cnt = min (1024 - rwptr (fdt (fs w) ! fd) mod 1024) (bytes_to_write w)"
  shows "\<exists>w'. write_chunk fd buf (int q - 18) old w1 = Some (False, w') \<and> winv fd x w'
     \<and> wrote fd x (take cnt (drop (bytes_written w) buf)) (commit x w) (commit x w')
     \<and> bytes_written w' = bytes_written w + cnt
     \<and> bytes_to_write w' = bytes_to_write w - cnt \<and> did_write_to_disk w' \<and> 0 < cnt"
proof -
  note W = winvD[OF wi] and F = winv_facts[OF wi]
  let ?c = "commit x w"
  let ?n = "inodes (fs w) ! x" and ?n1 = "inodes (fs w1) ! x"
  let ?f = "fdt (fs w) ! fd"
  define p where "p = rwptr ?f"
  define off where "off = p mod 1024"
  define b where "b = current_block w"
  define d where "d = take cnt (drop (bytes_written w) buf)"
  let ?cn = "inodes ?c ! x"
  note inv = W(1) and x = W(3,4)
  have off: "off < 1024" by (simp add: off_def)
  have cnt': "cnt = min (1024 - off) (bytes_to_write w)"
    using cnt by (simp only: off_def p_def)
  have c0: "0 < cnt" "cnt \<le> bytes_to_write w" "cnt \<le> 1024 - off"
    using cnt' g(1) off by simp_all
  have ld: "length d = cnt" using c0(2) bl by (simp add: d_def)
  have pb: "p div 1024 = b" using W(6) by (simp add: p_def b_def)
  have pbo: "p = b * 1024 + off" using mod_in_block[OF pb] by (simp only: off_def)
  have b268: "b < 268" using g(2) by (simp add: b_def)
  have csz: "isize ?cn = max (isize ?n) p" using F(7) by (simp add: p_def)
  have pcs: "p \<le> isize ?cn" using csz by simp
  have p274: "p \<le> 274432" using F(8) by (simp add: p_def)
  have lc: "link_cnt ?cn = 1"
    using F(6) commit_inodes(1)[of x w] F(1) x by simp
  have cblk: "blk ?c ?cn b' = wblk x w b'" for b' by (rule F(9))
  have cidx: "indirect ?cn = indirect ?n"
    using commit_inodes(1)[of x w] F(1) x by simp
  have rso: "rwptr_size_offset w = int p - int (isize ?n)" using W(7) by (simp add: p_def)
  have qc: "(blk ?c ?cn b = q \<and> 0 < q) \<or> (18 \<le> q \<and> free_blocks ?c ! (q - 18) = 0)"
    using qq cblk[of b] by (auto simp: b_def)
  note fresh = q_fresh[OF inv x b268 qc]
  have qreg: "18 \<le> q" "q < 2153"
    using qq invD_blk(1,2)[OF inv x b268] cblk[of b] by (auto simp: b_def)
  have qidx: "q \<noteq> indirect ?n" using fresh(2)[OF x] cidx by simp
  have dcq: "disk ?c q = disk (fs w) q" using qidx by (simp add: commit_disk)
  have lold: "length old = 1024"
    using qq invD_wf(6)[OF inv, of q] dcq by (auto simp: zero_block_def)
  define newblk where "newblk = take off old @ d @ drop (off + cnt) old"
  have lnew: "length newblk = 1024"
    using lold ld c0(3) off by (simp add: newblk_def)
  define w' where "w' = w1\<lparr>
          fs := (fs w1)\<lparr>
            disk := (disk (fs w1))(q := newblk),
            free_blocks := (free_blocks (fs w1))[q - 18 := 1],
            fdt := (fdt (fs w1))[fd := (fdt (fs w1) ! fd)\<lparr>rwptr :=
               rwptr (fdt (fs w1) ! fd) + cnt\<rparr>]\<rparr>,
          rwptr_size_offset := rwptr_size_offset w1 + int cnt,
          bytes_to_write := bytes_to_write w1 - cnt,
          bytes_written := bytes_written w1 + cnt,
          did_write_to_disk := True,
          current_block := (rwptr (fdt (fs w1) ! fd) + cnt) div 1024\<rparr>"
  have wc: "write_chunk fd buf (int q - 18) old w1 = Some (False, w')"
    unfolding w'_def newblk_def d_def off_def p_def r1(1)[symmetric] r3(3)[symmetric]
  proof (rule write_chunk_eq)
    show "0 < bytes_to_write w1" using g(1) r3(4) by simp
    show "bytes_written w1 + bytes_to_write w1 \<le> length buf" using bl r3(3,4) by simp
    show "rwptr_size_offset w1 \<le> 274432" using r3(5) rso p274 by simp
    show "cnt = min (1024 - rwptr (fdt (fs w1) ! fd) mod 1024) (bytes_to_write w1)"
      using cnt r1(1) r3(4) by simp
  qed (rule qreg)+
  let ?c' = "commit x w'"
  let ?cn' = "inodes ?c' ! x"
  have fw': "inodes (fs w') = inodes (fs w1)" "root (fs w') = root (fs w)"
    "num_files (fs w') = num_files (fs w)" "curr_file (fs w') = curr_file (fs w)"
    "super (fs w') = super (fs w)"
    "fdt (fs w') = (fdt (fs w))[fd := ?f\<lparr>rwptr := p + cnt\<rparr>]"
    "free_blocks (fs w') = (free_blocks (fs w1))[q - 18 := 1]"
    "disk (fs w') = (disk (fs w))(q := newblk)"
    "ptr_buff w' = ptr_buff w1" "did_load_ptr_buff w' = did_load_ptr_buff w"
    "rwptr_size_offset w' = int (p + cnt) - int (isize ?n)"
    "bytes_written w' = bytes_written w + cnt" "bytes_to_write w' = bytes_to_write w - cnt"
    "did_write_to_disk w'" "current_block w' = (p + cnt) div 1024"
    using r1 r3 rso by (simp_all add: w'_def p_def)
  have cx': "?cn' = ?n1\<lparr>isize := max (isize ?n) (p + cnt)\<rparr>"
  proof -
    have "nat (int (isize ?n1) + max 0 (rwptr_size_offset w')) = max (isize ?n) (p + cnt)"
      unfolding fw'(11) r2(5) by (simp add: max_def) linarith
    then show ?thesis
      using commit_inodes(1)[of x w'] r2(1) x fw'(1) by simp
  qed
  have co': "inodes ?c' ! i = inodes ?c ! i" if "i < 128" "i \<noteq> x" for i
    using commit_inodes(2)[of x w' i] commit_inodes(2)[of x w i] r2(1,2) F(1) x that fw'(1)
    by simp
  have dsk': "disk ?c' r = (if did_load_ptr_buff w \<and> r = indirect ?n then store_ptrs (ptr_buff w1)
      else if r = q then newblk else disk (fs w) r)" for r
    by (simp add: commit_disk fw' r2(6))
  have dc: "disk ?c r = (if did_load_ptr_buff w \<and> r = indirect ?n then store_ptrs (ptr_buff w)
      else disk (fs w) r)" for r
    by (rule commit_disk)
  have dsk: "\<forall>r. r \<noteq> q \<longrightarrow> r \<noteq> indirect ?cn \<longrightarrow> disk ?c' r = disk ?c r"
    by (simp add: dsk' dc cidx)
  have dq: "disk ?c' q = take (p mod 1024) old @ d @ drop (p mod 1024 + length d) old"
    using qidx by (simp add: dsk' newblk_def off_def ld)
  have blkx: "blk ?c' ?cn' b' = (if b' = b then q else blk ?c ?cn b')" if "b' < 268" for b'
  proof -
    have "blk ?c' ?cn' b' = wblk x w' b'"
      using r2(1) x fw'(1) fw'(10) r2(6) W(8) r3(1,2) fw'(9)
      by (intro blk_commit) auto
    also have "\<dots> = wblk x w1 b'"
      by (simp add: wblk_def fw' r3(1))
    finally show ?thesis using r4 that cblk by (simp add: b_def)
  qed
  have fb': "(blk ?c ?cn b = q \<and> 0 < q \<and> free_blocks ?c' = free_blocks ?c)
            \<or> (blk ?c ?cn b = 0 \<and> 18 \<le> q \<and> q < 2153
                \<and> free_blocks ?c ! (q - 18) = 0
                \<and> free_blocks ?c' = (free_blocks ?c)[q - 18 := 1])"
  proof (cases "wblk x w b = q \<and> 0 < q
               \<and> free_blocks (fs w1) = free_blocks (fs w) \<and> old = disk (fs w) q")
    case True
    then have "blk ?c ?cn b = q" "0 < q" using cblk by simp_all
    from invD_blk(3)[OF inv x b268] this have "free_blocks (fs w) ! (q - 18) = 1" by simp
    then have "(free_blocks (fs w))[q - 18 := 1] = free_blocks (fs w)"
      by (metis list_update_id)
    with True cblk show ?thesis by (simp add: fw')
  next
    case False
    with qq have "wblk x w b = 0 \<and> 18 \<le> q \<and> q < 2153
               \<and> free_blocks (fs w) ! (q - 18) = 0
               \<and> free_blocks (fs w1) = (free_blocks (fs w))[q - 18 := 1]"
      by (auto simp: b_def)
    with cblk show ?thesis by (simp add: fw')
  qed
  have others: "blk ?c' (inodes ?c' ! i) b' = blk ?c (inodes ?c ! i) b'"
      "contents ?c' (inodes ?c' ! i) = contents ?c (inodes ?c ! i)"
    if "0 < i" "i < 128" "i \<noteq> x" for i b'
    using contents_other[OF inv x b268 that co'[OF that(2,3)] qc dsk] by simp_all
  have wf': "wf_arrays ?c'"
    unfolding wf_arrays_def
  proof (intro conjI allI impI)
    show "length (inodes ?c') = NUM_INODES" using r2(1) fw'(1) by simp
    show "length (fdt ?c') = NUM_INODES" using F(2) by (simp add: fw')
    show "length (root ?c') = NUM_FILE_INODES" using F(4) by (simp add: fw')
    show "length (free_blocks ?c') = MAX_DATA_BLOCKS_SCALED_DOWN"
      using qq F(3) by (auto simp: fw')
    show "length (direct (inodes ?c' ! i)) = NUM_DIRECT_POINTERS" if "i < NUM_INODES" for i
    proof (cases "i = x")
      case True
      then show ?thesis using cx' r2(7) by simp
    next
      case False
      with that co'[of i] invD_wf(5)[OF inv, of i] show ?thesis by simp
    qed
    show "length (disk ?c' r) = BLOCK_SIZE" for r
    proof (cases "did_load_ptr_buff w \<and> r = indirect ?n")
      case True
      then show ?thesis using r3(1,2) by (simp add: dsk')
    next
      case False
      then have "disk (fs w) r = disk ?c r" by (auto simp: commit_disk)
      with False invD_wf(6)[OF inv, of r] lnew qidx show ?thesis by (auto simp: dsk')
    qed
  qed
  have e: "b * 1024 \<le> isize ?cn" "b * 1024 < p + cnt" "p + cnt \<le> (b + 1) * 1024"
    using pbo pcs c0 off by simp_all
  have inv': "sfs_inv ?c'"
    using inv x lc b268 e wf'
  proof (rule inv_data_step)
    show "\<forall>j<128. inode (fdt ?c' ! j) = inode (fdt ?c ! j)"
      using F(2) W(2) by (auto simp: fw' nth_list_update)
    show "\<forall>i<128. link_cnt (inodes ?c' ! i) = link_cnt (inodes ?c ! i)
                 \<and> indirect (inodes ?c' ! i) = indirect (inodes ?c ! i)"
    proof (intro allI impI)
      fix i :: nat assume "i < 128"
      then show "link_cnt (inodes ?c' ! i) = link_cnt (inodes ?c ! i)
                 \<and> indirect (inodes ?c' ! i) = indirect (inodes ?c ! i)"
        using co'[of i] cx' r2(4,6) lc F(6) cidx by (cases "i = x") simp_all
    qed
    have "max (isize ?n) (p + cnt) = max (max (isize ?n) p) (p + cnt)" by simp
    then show "\<forall>i<128. isize (inodes ?c' ! i)
                 = (if i = x then max (isize ?cn) (p + cnt) else isize (inodes ?c ! i))"
      using co' cx' csz by simp
    show "\<forall>i b'. 0 < i \<and> i < 128 \<and> b' < 268 \<longrightarrow> blk ?c' (inodes ?c' ! i) b'
                 = (if i = x \<and> b' = b then q else blk ?c (inodes ?c ! i) b')"
    proof (intro allI impI)
      fix i b' :: nat assume a: "0 < i \<and> i < 128 \<and> b' < 268"
      show "blk ?c' (inodes ?c' ! i) b'
                 = (if i = x \<and> b' = b then q else blk ?c (inodes ?c ! i) b')"
      proof (cases "i = x")
        case True
        then show ?thesis using blkx[of b'] a by simp
      next
        case False
        then show ?thesis using others(1)[of i b'] a by simp
      qed
    qed
    show "(blk ?c ?cn b = q \<and> 0 < q \<and> free_blocks ?c' = free_blocks ?c)
            \<or> (blk ?c ?cn b = 0 \<and> 18 \<le> q \<and> q < 2153
                \<and> free_blocks ?c ! (q - 18) = 0
                \<and> free_blocks ?c' = (free_blocks ?c)[q - 18 := 1])"
      by (rule fb')
    show "\<forall>r. r \<noteq> q \<longrightarrow> r \<noteq> indirect ?cn \<longrightarrow> disk ?c' r = disk ?c r" by (rule dsk)
  qed
  have sz': "isize ?cn' = max (isize ?cn) (p + length d)"
  proof -
    have "max (isize ?n) (p + cnt) = max (max (isize ?n) p) (p + cnt)" by simp
    then show ?thesis using cx' csz ld by simp
  qed
  have qold: "(blk ?c ?cn b = q \<and> 0 < q \<and> old = disk ?c q)
            \<or> (blk ?c ?cn b = 0 \<and> 18 \<le> q \<and> free_blocks ?c ! (q - 18) = 0
                \<and> old = zero_block)"
    using qq cblk[of b] dcq by (auto simp: b_def)
  have cont: "contents ?c' ?cn' = take p (contents ?c ?cn) @ d @ drop (p + length d) (contents ?c ?cn)"
    using inv x b268 pb pcs
  proof (rule contents_data_step)
    show "0 < length d" "length d \<le> 1024 - p mod 1024"
      using ld c0 by (simp_all add: off_def)
    show "\<forall>b'<268. blk ?c' ?cn' b' = (if b' = b then q else blk ?c ?cn b')"
      using blkx by simp
  qed (rule sz' qold dq dsk)+
  have acc: "int (used_blocks ?c') - int (nblocks (isize ?cn'))
           - (if indirect ?cn' > 0 then 1 else 0)
         = int (used_blocks ?c) - int (nblocks (isize ?cn))
           - (if indirect ?cn > 0 then 1 else 0)"
  proof -
    have i': "indirect ?cn' = indirect ?cn" using cx' r2(6) cidx by simp
    from fb' show ?thesis
    proof
      assume a: "blk ?c ?cn b = q \<and> 0 < q \<and> free_blocks ?c' = free_blocks ?c"
      then have lo: "b * 1024 < isize ?cn" using invD_file(2)[OF inv x b268] by simp
      have ge: "isize ?cn \<le> isize ?cn'" using sz' by simp
      have "nblocks (isize ?cn') = nblocks (isize ?cn)"
      proof (cases "isize ?cn \<le> b * 1024 + 1024")
        case True
        then have "isize ?cn' \<le> b * 1024 + 1024" using sz' ld e(3) by simp
        moreover have "b * 1024 < isize ?cn'" using lo ge by simp
        ultimately have "nblocks (isize ?cn') = b + 1" by (intro nblocks_in_block)
        moreover have "nblocks (isize ?cn) = b + 1" using lo True by (rule nblocks_in_block)
        ultimately show ?thesis by simp
      next
        case False
        then have "isize ?cn' = isize ?cn" using sz' ld e(3) by simp
        then show ?thesis by simp
      qed
      with a i' show ?thesis by (simp add: used_blocks_def)
    next
      assume a: "blk ?c ?cn b = 0 \<and> 18 \<le> q \<and> q < 2153 \<and> free_blocks ?c ! (q - 18) = 0
         \<and> free_blocks ?c' = (free_blocks ?c)[q - 18 := 1]"
      then have "\<not> b * 1024 < isize ?cn" using invD_file(2)[OF inv x b268] by simp
      with e(1) have s: "isize ?cn = b * 1024" by simp
      with pcs pbo have "p = b * 1024" by simp
      then have "b * 1024 < isize ?cn'" "isize ?cn' \<le> b * 1024 + 1024"
        using sz' ld s c0 by simp_all
      then have "nblocks (isize ?cn') = b + 1" by (rule nblocks_in_block)
      moreover have "nblocks (isize ?cn) = b" unfolding s by (rule nblocks_aligned)
      moreover have "q - 18 < 2135" using qreg by simp
      then have "used_blocks ?c' = Suc (used_blocks ?c)"
        using a F(3) by (intro used_blocks_alloc[of "q - 18"]) simp_all
      ultimately show ?thesis using i' by simp
    qed
  qed
  have wr: "wrote fd x d ?c ?c'"
    unfolding wrote_def
  proof (intro conjI allI impI)
    show "fdt ?c' = (fdt ?c)[fd := (fdt ?c ! fd)\<lparr>rwptr := rwptr (fdt ?c ! fd) + length d\<rparr>]"
      by (simp add: fw' ld p_def)
    show "contents ?c' ?cn' = take (rwptr (fdt ?c ! fd)) (contents ?c ?cn) @ d
           @ drop (rwptr (fdt ?c ! fd) + length d) (contents ?c ?cn)"
      using cont by (simp add: p_def)
    show "isize ?cn' = max (isize ?cn) (rwptr (fdt ?c ! fd) + length d)"
      using sz' by (simp add: p_def)
    show "mode ?cn' = mode ?cn" "link_cnt ?cn' = link_cnt ?cn"
      using cx' r2(3,4) commit_inodes(1)[of x w] F(1) x by simp_all
    show "inodes ?c' ! i = inodes ?c ! i" if "i < 128" "i \<noteq> x" for i :: nat
      using co' that by simp
    show "contents ?c' (inodes ?c' ! i) = contents ?c (inodes ?c ! i)"
      if "0 < i \<and> i < 128 \<and> i \<noteq> x" for i
      using others(2) that by simp
  qed (simp_all add: fw' acc)
  have wi': "winv fd x w'"
    unfolding winv_def
  proof (intro conjI impI)
    show "inode (fdt (fs w') ! fd) = int x" using W(2,5) F(2) by (simp add: fw')
    show "current_block w' = rwptr (fdt (fs w') ! fd) div 1024"
      using W(2) F(2) by (simp add: fw')
    show "rwptr_size_offset w' = int (rwptr (fdt (fs w') ! fd)) - int (isize (inodes (fs w') ! x))"
      using W(2) F(2) r2(5) by (simp add: fw')
    show "did_load_ptr_buff w' = (0 < indirect (inodes (fs w') ! x))"
      using W(8) r2(6) by (simp add: fw')
    show "length (ptr_buff w') = 256" "\<forall>k<256. ptr_buff w' ! k < 4294967296"
      if "did_load_ptr_buff w'"
      using that r3(1,2) by (simp_all add: fw')
    show "commit x w' = fs w'" if "bytes_written w' = 0"
      using that c0(1) by (simp add: fw')
  qed (use inv' W(2) x in simp_all)
  show ?thesis
    using wc wi' wr fw'(12,13,14) c0(1) unfolding d_def by blast
qed

lemma commit_did_write [simp]:
  "commit x (w\<lparr>did_write_to_disk := v\<rparr>) = commit x w"
  by (simp add: commit_def)

lemma winv_did_write [simp]:
  "winv fd x (w\<lparr>did_write_to_disk := v\<rparr>) = winv fd x w"
  by (simp add: winv_def)

lemma winv_wrote_refl:
  assumes "winv fd x w"
  shows "wrote fd x [] (commit x w) (commit x w)"
proof (rule wrote_refl)
  note W = winvD[OF assms] and F = winv_facts[OF assms]
  show "fd < length (fdt (commit x w))" using W(2) F(2) by simp
  show "rwptr (fdt (commit x w) ! fd) \<le> isize (inodes (commit x w) ! x)"
    using F(7) by simp
qed

text \<open>The index block is allocated when block 12 or a later one is reached first.\<close>

lemma alloc_indirect_spec:
  assumes wi: "winv fd x w"
  shows "alloc_indirect x w = None \<Longrightarrow> \<forall>k<2135. free_blocks (fs w) ! k \<noteq> 0"
    and "alloc_indirect x w = Some w1 \<Longrightarrow>
           winv fd x w1 \<and> did_load_ptr_buff w1
           \<and> wrote fd x [] (commit x w) (commit x w1)
           \<and> bytes_written w1 = bytes_written w \<and> bytes_to_write w1 = bytes_to_write w
           \<and> current_block w1 = current_block w"
proof -
  note W = winvD[OF wi] and F = winv_facts[OF wi]
  let ?s = "fs w" and ?n = "inodes (fs w) ! x"
  let ?c = "commit x w"
  note inv = W(1) and x = W(3,4)
  show "\<forall>k<2135. free_blocks (fs w) ! k \<noteq> 0" if "alloc_indirect x w = None"
    using that get_free_none[of ?s] F(3)
    by (auto simp: alloc_indirect_def Let_def split: if_splits)
  show "winv fd x w1 \<and> did_load_ptr_buff w1
           \<and> wrote fd x [] (commit x w) (commit x w1)
           \<and> bytes_written w1 = bytes_written w \<and> bytes_to_write w1 = bytes_to_write w
           \<and> current_block w1 = current_block w" if a: "alloc_indirect x w = Some w1"
  proof (cases "indirect ?n = 0")
    case False
    with a have "w1 = w" by (simp add: alloc_indirect_def)
    with False W(8) wi winv_wrote_refl[OF wi] show ?thesis by simp
  next
    case True
    define k where "k = nat (get_free_bitmap_address ?s)"
    have kne: "get_free_bitmap_address ?s \<noteq> - 1"
      using a True by (auto simp: alloc_indirect_def Let_def split: if_splits)
    from get_free_some[OF F(3) kne] have k: "k < 2135" "free_blocks ?s ! k = 0" "get_free_bitmap_address ?s = int k"
      by (auto simp: k_def)
    have w1: "w1 = w\<lparr>
           fs := ?s\<lparr>
             free_blocks := (free_blocks ?s)[k := 1],
             inodes := (inodes ?s)[x := ?n\<lparr>indirect := k + 18\<rparr>]\<rparr>,
           ptr_buff := replicate 256 0,
           did_load_ptr_buff := True\<rparr>"
      using a True kne by (simp add: alloc_indirect_def Let_def k_def[symmetric])
    have nl: "\<not> did_load_ptr_buff w" using W(8) True by simp
    have dc: "disk ?c = disk ?s" using nl by (simp add: commit_def)
    have zk: "disk ?s (k + 18) = zero_block"
      using invD_bitmap(2)[OF inv k(1)] k(2) dc by simp
    let ?c1 = "commit x w1"
    have f1: "fdt (fs w1) = fdt ?s" "root (fs w1) = root ?s" "num_files (fs w1) = num_files ?s"
      "curr_file (fs w1) = curr_file ?s" "super (fs w1) = super ?s" "disk (fs w1) = disk ?s"
      "free_blocks (fs w1) = (free_blocks ?s)[k := 1]"
      "inodes (fs w1) = (inodes ?s)[x := ?n\<lparr>indirect := k + 18\<rparr>]"
      "ptr_buff w1 = replicate 256 0" "did_load_ptr_buff w1"
      "rwptr_size_offset w1 = rwptr_size_offset w" "bytes_written w1 = bytes_written w"
      "bytes_to_write w1 = bytes_to_write w" "current_block w1 = current_block w"
      by (simp_all add: w1)
    have n1: "inodes (fs w1) ! x = ?n\<lparr>indirect := k + 18\<rparr>"
      using F(1) x by (simp add: f1)
    have d1: "disk ?c1 = disk ?c"
    proof -
      have "disk ?c1 = (disk ?s)(k + 18 := zero_block)"
        using F(1) x by (simp add: commit_def f1)
      also have "\<dots> = disk ?s" using zk by (metis fun_upd_triv)
      finally show ?thesis using dc by simp
    qed
    have cx: "inodes ?c ! x = ?n\<lparr>isize := nat (int (isize ?n) + max 0 (rwptr_size_offset w))\<rparr>"
      using commit_inodes(1)[of x w] F(1) x by simp
    have cx1: "inodes ?c1 ! x = (inodes ?c ! x)\<lparr>indirect := k + 18\<rparr>"
      using commit_inodes(1)[of x w1] F(1) x by (simp add: f1 n1 cx)
    have co1: "inodes ?c1 ! i = inodes ?c ! i" if "i < 128" "i \<noteq> x" for i
      using commit_inodes(2)[of x w1 i] commit_inodes(2)[of x w i] F(1) x that
      by (simp add: f1)
    have bx: "blk ?c1 (inodes ?c1 ! x) b' = blk ?c (inodes ?c ! x) b'" for b'
    proof -
      have "blk ?c1 (inodes ?c1 ! x) b' = wblk x w1 b'"
        using F(1) x by (intro blk_commit) (simp_all add: f1 n1)
      also have "\<dots> = wblk x w b'"
        using nl F(1) x by (simp add: wblk_def f1 n1)
      also have "\<dots> = blk ?c (inodes ?c ! x) b'" using F(9) by simp
      finally show ?thesis .
    qed
    have bo: "blk ?c1 (inodes ?c1 ! i) b' = blk ?c (inodes ?c ! i) b'"
      if "i < 128" "i \<noteq> x" for i b'
      unfolding co1[OF that] by (rule blk_frame) (simp add: d1)
    have ball: "blk ?c1 (inodes ?c1 ! i) b' = blk ?c (inodes ?c ! i) b'" if "i < 128" for i b'
      using bx bo that by (cases "i = x") simp_all
    have lc: "link_cnt (inodes ?c ! x) = 1" using F(6) cx by simp
    have wf1: "wf_arrays ?c1"
      unfolding wf_arrays_def
    proof (intro conjI allI impI)
      show "length (direct (inodes ?c1 ! i)) = NUM_DIRECT_POINTERS" if "i < NUM_INODES" for i
        using invD_wf(5)[OF inv, of i] that co1[of i] cx1 by (cases "i = x") simp_all
      show "length (disk ?c1 r) = BLOCK_SIZE" for r
        using invD_wf(6)[OF inv, of r] d1 by simp
    qed (use F(1-4) in \<open>simp_all add: f1\<close>)
    have inv1: "sfs_inv ?c1"
      using inv x lc
    proof (rule inv_index_step)
      show "indirect (inodes ?c ! x) = 0" using True cx by simp
      show "18 \<le> k + 18" "k + 18 < 2153" "free_blocks ?c ! (k + 18 - 18) = 0"
        using k by simp_all
      show "wf_arrays ?c1" by (rule wf1)
      show "\<forall>j<128. inode (fdt ?c1 ! j) = inode (fdt ?c ! j)" by (simp add: f1)
      show "\<forall>i<128. link_cnt (inodes ?c1 ! i) = link_cnt (inodes ?c ! i)
                 \<and> isize (inodes ?c1 ! i) = isize (inodes ?c ! i)
                 \<and> indirect (inodes ?c1 ! i)
                    = (if i = x then k + 18 else indirect (inodes ?c ! i))"
        using co1 cx1 by simp
      show "\<forall>i b'. 0 < i \<and> i < 128 \<and> b' < 268 \<longrightarrow>
                 blk ?c1 (inodes ?c1 ! i) b' = blk ?c (inodes ?c ! i) b'"
        using ball by simp
      show "free_blocks ?c1 = (free_blocks ?c)[k + 18 - 18 := 1]" by (simp add: f1)
      show "\<forall>r. disk ?c1 r = disk ?c r" using d1 by simp
    qed
    have call: "contents ?c1 (inodes ?c1 ! i) = contents ?c (inodes ?c ! i)" if "i < 128" for i
    proof -
      have "isize (inodes ?c1 ! i) = isize (inodes ?c ! i)"
        using co1[of i] cx1 that by (cases "i = x") simp_all
      then show ?thesis
        using ball[OF that] d1 by (simp add: contents_def file_byte_def)
    qed
    have wr: "wrote fd x [] ?c ?c1"
      unfolding wrote_def
    proof (intro conjI allI impI)
      show "fdt ?c1 = (fdt ?c)[fd := (fdt ?c ! fd)\<lparr>rwptr := rwptr (fdt ?c ! fd) + length []\<rparr>]"
        using W(2) F(2) by (simp add: f1 list_update_id)
      show "isize (inodes ?c1 ! x) = max (isize (inodes ?c ! x)) (rwptr (fdt ?c ! fd) + length [])"
        using cx1 F(7) by simp
      show "contents ?c1 (inodes ?c1 ! x)
         = take (rwptr (fdt ?c ! fd)) (contents ?c (inodes ?c ! x)) @ []
           @ drop (rwptr (fdt ?c ! fd) + length []) (contents ?c (inodes ?c ! x))"
        using call[OF x(2)] by simp
      show "int (used_blocks ?c1) - int (nblocks (isize (inodes ?c1 ! x)))
           - (if indirect (inodes ?c1 ! x) > 0 then 1 else 0)
         = int (used_blocks ?c) - int (nblocks (isize (inodes ?c ! x)))
           - (if indirect (inodes ?c ! x) > 0 then 1 else 0)"
      proof -
        have "used_blocks ?c1 = Suc (used_blocks ?c)"
          using k F(3) by (intro used_blocks_alloc[of k]) (simp_all add: f1)
        then show ?thesis using cx1 cx True by simp
      qed
      show "contents ?c1 (inodes ?c1 ! i) = contents ?c (inodes ?c ! i)"
        if "0 < i \<and> i < 128 \<and> i \<noteq> x" for i
        using call[of i] that by simp
      show "inodes ?c1 ! i = inodes ?c ! i" if "i < 128" "i \<noteq> x" for i :: nat
        using co1 that by simp
    qed (simp_all add: f1 cx1)
    have wi1: "winv fd x w1"
      unfolding winv_def
    proof (intro conjI impI)
      show "commit x w1 = fs w1" if "bytes_written w1 = 0"
      proof -
        from that W(11) have e: "commit x w = fs w" by (simp add: f1)
        then have "inodes ?c ! x = ?n" by simp
        with cx have "nat (int (isize ?n) + max 0 (rwptr_size_offset w)) = isize ?n"
          by (metis inode_t.select_convs(3) inode_t.surjective inode_t.update_convs(3))
        then have "(inodes (fs w1))[x := (inodes (fs w1) ! x)\<lparr>isize :=
            nat (int (isize (inodes (fs w1) ! x)) + max 0 (rwptr_size_offset w1))\<rparr>]
            = inodes (fs w1)"
          by (simp add: n1 f1(11)) (simp add: f1)
        moreover have "(disk (fs w1))(indirect (inodes (fs w1) ! x) := store_ptrs (ptr_buff w1))
            = disk (fs w1)"
          unfolding n1 using zk by (simp add: f1(6,9) fun_upd_idem)
        ultimately show ?thesis
          by (simp add: commit_def f1(10))
      qed
    qed (use inv1 W F(1) x in \<open>simp_all add: f1 n1\<close>)
    show ?thesis using wi1 wr by (simp add: f1)
  qed
qed


text \<open>The data block of the current position is found or allocated, and one chunk is
  written.\<close>

lemma locate_step:
  assumes wi: "winv fd x w" and g: "0 < bytes_to_write w" "current_block w < 268"
    and bl: "bytes_written w + bytes_to_write w \<le> length buf"
    and ld: "12 \<le> current_block w \<longrightarrow> did_load_ptr_buff w"
  defines "L \<equiv> (if current_block w < 12 then locate_direct x w else locate_ptr x w)"
  shows "(L = Stop w \<and> (\<forall>k<2135. free_blocks (fs w) ! k \<noteq> 0))
       \<or> (\<exists>be old w1 w'. L = Target be old w1
            \<and> write_chunk fd buf be old w1 = Some (False, w') \<and> winv fd x w'
            \<and> wrote fd x (take (bytes_written w' - bytes_written w) (drop (bytes_written w) buf))
                 (commit x w) (commit x w')
            \<and> bytes_written w < bytes_written w'
            \<and> bytes_written w' + bytes_to_write w' = bytes_written w + bytes_to_write w
            \<and> did_write_to_disk w')"
proof -
  note W = winvD[OF wi] and F = winv_facts[OF wi]
  note inv = W(1) and x = W(3,4)
  let ?s = "fs w" and ?n = "inodes (fs w) ! x"
  define b where "b = current_block w"
  define q0 where "q0 = wblk x w b"
  define cnt where "cnt = min (1024 - rwptr (fdt (fs w) ! fd) mod 1024) (bytes_to_write w)"
  have b: "b < 268" using g(2) by (simp add: b_def)
  have q0: "q0 = (if b < 12 then direct ?n ! b else ptr_buff w ! (b - 12))"
    using ld b by (simp add: q0_def wblk_def b_def)
  have cl: "cnt \<le> bytes_to_write w" by (simp add: cnt_def)
  have fin: ?thesis
    if "L = Target (int q - 18) old w1"
      and "\<exists>w'. write_chunk fd buf (int q - 18) old w1 = Some (False, w') \<and> winv fd x w'
     \<and> wrote fd x (take cnt (drop (bytes_written w) buf)) (commit x w) (commit x w')
     \<and> bytes_written w' = bytes_written w + cnt
     \<and> bytes_to_write w' = bytes_to_write w - cnt \<and> did_write_to_disk w' \<and> 0 < cnt"
    for q old w1
  proof -
    from that(2) obtain w' where w': "write_chunk fd buf (int q - 18) old w1 = Some (False, w')"
      "winv fd x w'"
      "wrote fd x (take cnt (drop (bytes_written w) buf)) (commit x w) (commit x w')"
      "bytes_written w' = bytes_written w + cnt"
      "bytes_to_write w' = bytes_to_write w - cnt" "did_write_to_disk w'" "0 < cnt"
      by blast
    have "bytes_written w' - bytes_written w = cnt" using w'(4) by simp
    with w' that(1) cl show ?thesis by auto
  qed
  show ?thesis
  proof (cases "0 < q0")
    case True
    have "0 < blk (commit x w) (inodes (commit x w) ! x) b" using True F(9) by (simp add: q0_def)
    from invD_blk[OF inv x b this] have r: "18 \<le> q0" "q0 < 2153"
      using F(9) by (simp_all add: q0_def)
    have ti: "to_int32 (int q0 - 18) = int q0 - 18"
      using r by (intro to_int32_id) simp_all
    have L: "L = Target (int q0 - 18) (disk ?s q0) w"
      using True q0 ti
      by (auto simp: L_def locate_direct_def locate_ptr_def Let_def b_def[symmetric]
          split: if_splits)
    have "\<exists>w'. write_chunk fd buf (int q0 - 18) (disk ?s q0) w = Some (False, w') \<and> winv fd x w'
     \<and> wrote fd x (take cnt (drop (bytes_written w) buf)) (commit x w) (commit x w')
     \<and> bytes_written w' = bytes_written w + cnt
     \<and> bytes_to_write w' = bytes_to_write w - cnt \<and> did_write_to_disk w' \<and> 0 < cnt"
    proof (rule data_step_core[where ?w1.0 = w and q = q0 and old = "disk ?s q0" and cnt = cnt,
          OF wi g bl])
      show "did_load_ptr_buff w \<longrightarrow>
          length (ptr_buff w) = 256 \<and> (\<forall>k<256. ptr_buff w ! k < 4294967296)"
        using W(9,10) by simp
      show "\<forall>b'<268. wblk x w b' = (if b' = current_block w then q0 else wblk x w b')"
        by (simp add: q0_def b_def[symmetric])
      show "(wblk x w (current_block w) = q0 \<and> 0 < q0
               \<and> free_blocks (fs w) = free_blocks (fs w) \<and> disk ?s q0 = disk (fs w) q0)
            \<or> (wblk x w (current_block w) = 0 \<and> 18 \<le> q0 \<and> q0 < 2153
               \<and> free_blocks (fs w) ! (q0 - 18) = 0
               \<and> free_blocks (fs w) = (free_blocks (fs w))[q0 - 18 := 1]
               \<and> disk ?s q0 = zero_block)"
        using True by (simp add: q0_def b_def[symmetric])
      show "cnt = min (1024 - rwptr (fdt (fs w) ! fd) mod 1024) (bytes_to_write w)"
        by (rule cnt_def)
    qed (simp_all add: F(1,5))
    with L show ?thesis by (rule fin)
  next
    case False
    then have z: "q0 = 0" by simp
    show ?thesis
    proof (cases "get_free_bitmap_address ?s = - 1")
      case True
      then have "L = Stop w"
        using z q0
        by (auto simp: L_def locate_direct_def locate_ptr_def Let_def b_def[symmetric]
            split: if_splits)
      moreover have "\<forall>k<2135. free_blocks ?s ! k \<noteq> 0"
        using True get_free_none[OF F(3)] by simp
      ultimately show ?thesis by simp
    next
      case kne: False
      define k where "k = nat (get_free_bitmap_address ?s)"
      from get_free_some[OF F(3) kne]
      have k: "k < 2135" "free_blocks ?s ! k = 0" "get_free_bitmap_address ?s = int k"
        by (auto simp: k_def)
      define w1 where "w1 = (if b < 12 then
           w\<lparr>fs := ?s\<lparr>
              free_blocks := (free_blocks ?s)[k := 1],
              inodes := (inodes ?s)[x := ?n\<lparr>direct := (direct ?n)[b := k + 18]\<rparr>]\<rparr>\<rparr>
         else w\<lparr>fs := ?s\<lparr>free_blocks := (free_blocks ?s)[k := 1]\<rparr>,
              ptr_buff := (ptr_buff w)[b - 12 := k + 18]\<rparr>)"
      have L: "L = Target (int (k + 18) - 18) zero_block w1"
        using z q0 kne k(3)
        by (auto simp: L_def locate_direct_def locate_ptr_def Let_def b_def[symmetric] w1_def
            split: if_splits)
      have n1: "inodes (fs w1) ! x = (if b < 12 then ?n\<lparr>direct := (direct ?n)[b := k + 18]\<rparr>
           else ?n)"
        using F(1) x by (simp add: w1_def)
      have pb1: "ptr_buff w1 = (if b < 12 then ptr_buff w else (ptr_buff w)[b - 12 := k + 18])"
        by (simp add: w1_def)
      have dl1: "did_load_ptr_buff w1 = did_load_ptr_buff w" by (simp add: w1_def)
      have "\<exists>w'. write_chunk fd buf (int (k + 18) - 18) zero_block w1 = Some (False, w')
     \<and> winv fd x w'
     \<and> wrote fd x (take cnt (drop (bytes_written w) buf)) (commit x w) (commit x w')
     \<and> bytes_written w' = bytes_written w + cnt
     \<and> bytes_to_write w' = bytes_to_write w - cnt \<and> did_write_to_disk w' \<and> 0 < cnt"
      proof (rule data_step_core[where ?w1.0 = w1 and q = "k + 18" and old = zero_block
            and cnt = cnt, OF wi g bl])
        show "did_load_ptr_buff w1 \<longrightarrow>
          length (ptr_buff w1) = 256 \<and> (\<forall>j<256. ptr_buff w1 ! j < 4294967296)"
        proof (intro impI conjI allI)
          assume d: "did_load_ptr_buff w1"
          then have dw: "did_load_ptr_buff w" by (simp add: dl1)
          show "length (ptr_buff w1) = 256" using W(9)[OF dw] by (simp add: pb1)
          show "ptr_buff w1 ! j < 4294967296" if "j < 256" for j
          proof (cases "b < 12")
            case True
            then show ?thesis using W(10)[OF dw that] by (simp add: pb1)
          next
            case False
            then show ?thesis using W(10)[OF dw that] W(9)[OF dw] k(1) that
              by (cases "j = b - 12") (simp_all add: pb1)
          qed
        qed
        show "\<forall>b'<268. wblk x w1 b' = (if b' = current_block w then k + 18 else wblk x w b')"
        proof (intro allI impI)
          fix b' :: nat assume b': "b' < 268"
          show "wblk x w1 b' = (if b' = current_block w then k + 18 else wblk x w b')"
          proof (cases "b < 12")
            case True
            then show ?thesis
              using F(5) b' by (simp add: wblk_def n1 pb1 dl1 b_def[symmetric] nth_list_update)
          next
            case False
            then have "did_load_ptr_buff w" using ld by (simp add: b_def[symmetric])
            with False W(9)[OF this] b b' show ?thesis
              by (auto simp: wblk_def n1 pb1 dl1 b_def[symmetric] nth_list_update)
          qed
        qed
        show "(wblk x w (current_block w) = k + 18 \<and> 0 < k + 18
               \<and> free_blocks (fs w1) = free_blocks (fs w) \<and> zero_block = disk (fs w) (k + 18))
            \<or> (wblk x w (current_block w) = 0 \<and> 18 \<le> k + 18 \<and> k + 18 < 2153
               \<and> free_blocks (fs w) ! (k + 18 - 18) = 0
               \<and> free_blocks (fs w1) = (free_blocks (fs w))[k + 18 - 18 := 1]
               \<and> zero_block = zero_block)"
          using z k by (simp add: q0_def b_def[symmetric] w1_def)
        show "cnt = min (1024 - rwptr (fdt (fs w) ! fd) mod 1024) (bytes_to_write w)"
          by (rule cnt_def)
        show "\<forall>i<128. i \<noteq> x \<longrightarrow> inodes (fs w1) ! i = inodes (fs w) ! i"
          by (simp add: w1_def)
      qed (simp_all add: n1 F(1,5), simp_all add: w1_def F(1,5))
      with L show ?thesis by (rule fin)
    qed
  qed
qed

lemma winv_bounds:
  assumes "winv fd x w"
  shows "fd < length (fdt (commit x w))"
    "rwptr (fdt (commit x w) ! fd) \<le> isize (inodes (commit x w) ! x)"
  using winvD(2)[OF assms] winv_facts(2,7)[OF assms] by simp_all

text \<open>One iteration of the loop.\<close>

lemma fwrite_body_spec:
  assumes wi: "winv fd x w" and g: "fwrite_guard w"
    and bl: "bytes_written w + bytes_to_write w \<le> length buf"
  shows "\<exists>brk w'. fwrite_body fd x buf w = Some (brk, w') \<and> winv fd x w'
     \<and> wrote fd x (take (bytes_written w' - bytes_written w) (drop (bytes_written w) buf))
          (commit x w) (commit x w')
     \<and> bytes_written w \<le> bytes_written w'
     \<and> bytes_written w' + bytes_to_write w' = bytes_written w + bytes_to_write w
     \<and> (brk \<longrightarrow> (\<forall>k<2135. free_blocks (fs w') ! k \<noteq> 0))
     \<and> (\<not> brk \<longrightarrow> did_write_to_disk w')"
proof -
  from g have g': "0 < bytes_to_write w" "current_block w < 268"
    by (simp_all add: fwrite_guard_def)
  have stop: ?thesis
    if "fwrite_body fd x buf w = Some (True, w1\<lparr>did_write_to_disk := False\<rparr>)"
      and "winv fd x w1" and "wrote fd x [] (commit x w) (commit x w1)"
      and "bytes_written w1 = bytes_written w" "bytes_to_write w1 = bytes_to_write w"
      and "\<forall>k<2135. free_blocks (fs w1) ! k \<noteq> 0" for w1
    using that by (intro exI[of _ True] exI[of _ "w1\<lparr>did_write_to_disk := False\<rparr>"]) simp
  show ?thesis
  proof (cases "current_block w < 12")
    case True
    have L: "(if current_block w < 12 then locate_direct x w else locate_ptr x w)
        = locate_direct x w" using True by simp
    note S = locate_step[OF wi g' bl, unfolded L]
    have "12 \<le> current_block w \<longrightarrow> did_load_ptr_buff w" using True by simp
    from S[OF this]
    consider (a) "locate_direct x w = Stop w" "\<forall>k<2135. free_blocks (fs w) ! k \<noteq> 0"
      | (b) be old w1 w' where "locate_direct x w = Target be old w1"
          "write_chunk fd buf be old w1 = Some (False, w')" "winv fd x w'"
          "wrote fd x (take (bytes_written w' - bytes_written w) (drop (bytes_written w) buf))
                 (commit x w) (commit x w')"
          "bytes_written w < bytes_written w'"
          "bytes_written w' + bytes_to_write w' = bytes_written w + bytes_to_write w"
          "did_write_to_disk w'"
      by (elim disjE conjE exE) blast+
    then show ?thesis
    proof cases
      case a
      show ?thesis
      proof (rule stop)
        show "fwrite_body fd x buf w = Some (True, w\<lparr>did_write_to_disk := False\<rparr>)"
          using True a(1) by (simp add: fwrite_body_def)
      qed (use wi a(2) winv_wrote_refl[OF wi] in simp_all)
    next
      case b
      have "fwrite_body fd x buf w = Some (False, w')"
        using True b(1,2) by (simp add: fwrite_body_def)
      with b show ?thesis
        by (intro exI[of _ False] exI[of _ w']) simp
    qed
  next
    case False
    show ?thesis
    proof (cases "alloc_indirect x w")
      case None
      show ?thesis
      proof (rule stop)
        show "fwrite_body fd x buf w = Some (True, w\<lparr>did_write_to_disk := False\<rparr>)"
          using False None by (simp add: fwrite_body_def locate_indirect_def)
      qed (use wi alloc_indirect_spec(1)[OF wi None] winv_wrote_refl[OF wi] in simp_all)
    next
      case (Some w0)
      from alloc_indirect_spec(2)[OF wi Some]
      have A: "winv fd x w0" "did_load_ptr_buff w0" "wrote fd x [] (commit x w) (commit x w0)"
        "bytes_written w0 = bytes_written w" "bytes_to_write w0 = bytes_to_write w"
        "current_block w0 = current_block w"
        by simp_all
      have li: "locate_indirect x w = locate_ptr x w0"
        using Some A(2) by (simp add: locate_indirect_def)
      have g0: "0 < bytes_to_write w0" "current_block w0 < 268"
        and bl0: "bytes_written w0 + bytes_to_write w0 \<le> length buf"
        using g' bl A(4-6) by simp_all
      have L: "(if current_block w0 < 12 then locate_direct x w0 else locate_ptr x w0)
        = locate_ptr x w0" using False A(6) by simp
      note S = locate_step[OF A(1) g0 bl0, unfolded L]
      have "12 \<le> current_block w0 \<longrightarrow> did_load_ptr_buff w0" using A(2) by simp
      from S[OF this]
      consider (a) "locate_ptr x w0 = Stop w0" "\<forall>k<2135. free_blocks (fs w0) ! k \<noteq> 0"
        | (b) be old w1 w' where "locate_ptr x w0 = Target be old w1"
          "write_chunk fd buf be old w1 = Some (False, w')" "winv fd x w'"
          "wrote fd x (take (bytes_written w' - bytes_written w0) (drop (bytes_written w0) buf))
                 (commit x w0) (commit x w')"
          "bytes_written w0 < bytes_written w'"
          "bytes_written w' + bytes_to_write w' = bytes_written w0 + bytes_to_write w0"
          "did_write_to_disk w'"
        by (elim disjE conjE exE) blast+
      then show ?thesis
      proof cases
        case a
        show ?thesis
        proof (rule stop)
          show "fwrite_body fd x buf w = Some (True, w0\<lparr>did_write_to_disk := False\<rparr>)"
            using False li a(1) by (simp add: fwrite_body_def)
        qed (use A a(2) in simp_all)
      next
        case b
        have fb: "fwrite_body fd x buf w = Some (False, w')"
          using False li b(1,2) by (simp add: fwrite_body_def)
        have "wrote fd x ([] @ take (bytes_written w' - bytes_written w0)
                  (drop (bytes_written w0) buf)) (commit x w) (commit x w')"
          using A(3) b(4) winv_bounds[OF wi] by (rule wrote_trans)
        then have "wrote fd x (take (bytes_written w' - bytes_written w)
                  (drop (bytes_written w) buf)) (commit x w) (commit x w')"
          by (simp add: A(4))
        with fb b A(4,5) show ?thesis
          by (intro exI[of _ False] exI[of _ w']) simp
      qed
    qed
  qed
qed

text \<open>The whole loop: it ends, keeps the invariant of the committed view and has written a
  prefix of what remained; it stops early only when no block is free or at the block limit.\<close>

lemma fwrite_loop_spec:
  assumes "winv fd x w" and "bytes_written w + bytes_to_write w \<le> length buf"
  shows "\<exists>w'. fwrite_loop fd x buf w = Some w' \<and> winv fd x w'
     \<and> wrote fd x (take (bytes_written w' - bytes_written w) (drop (bytes_written w) buf))
          (commit x w) (commit x w')
     \<and> bytes_written w \<le> bytes_written w'
     \<and> bytes_written w' + bytes_to_write w' = bytes_written w + bytes_to_write w
     \<and> (0 < bytes_to_write w' \<longrightarrow> (\<forall>k<2135. free_blocks (fs w') ! k \<noteq> 0)
            \<or> 268 \<le> current_block w' \<or> \<not> did_write_to_disk w)"
  using assms
proof (induction fd x buf w rule: fwrite_loop.induct)
  case (1 fd x buf w)
  note wi = "1.prems"(1) and bl = "1.prems"(2)
  show ?case
  proof (cases "fwrite_guard w")
    case False
    then have l: "fwrite_loop fd x buf w = Some w" by (subst fwrite_loop.simps) simp
    have "0 < bytes_to_write w \<longrightarrow> 268 \<le> current_block w \<or> \<not> did_write_to_disk w"
      using False by (auto simp: fwrite_guard_def)
    then show ?thesis using l wi winv_wrote_refl[OF wi]
      by (intro exI[of _ w]) simp
  next
    case True
    from fwrite_body_spec[OF wi True bl] obtain brk w1 where
      B: "fwrite_body fd x buf w = Some (brk, w1)" "winv fd x w1"
        "wrote fd x (take (bytes_written w1 - bytes_written w) (drop (bytes_written w) buf))
          (commit x w) (commit x w1)"
        "bytes_written w \<le> bytes_written w1"
        "bytes_written w1 + bytes_to_write w1 = bytes_written w + bytes_to_write w"
        "brk \<longrightarrow> (\<forall>k<2135. free_blocks (fs w1) ! k \<noteq> 0)"
        "\<not> brk \<longrightarrow> did_write_to_disk w1"
      apply (elim exE conjE)
      apply (rule that)
            apply assumption+
      done
    show ?thesis
    proof (cases brk)
      case True
      have "fwrite_loop fd x buf w = Some w1"
        using \<open>fwrite_guard w\<close> B(1) True by (subst fwrite_loop.simps) simp
      show ?thesis
      proof (intro exI[of _ w1] conjI impI)
        show "fwrite_loop fd x buf w = Some w1" by fact
        show "(\<forall>k<2135. free_blocks (fs w1) ! k \<noteq> 0)
            \<or> 268 \<le> current_block w1 \<or> \<not> did_write_to_disk w"
          using B(6) True by blast
      qed (rule B(2-5))+
    next
      case False
      have e: "fwrite_loop fd x buf w = fwrite_loop fd x buf w1"
        using \<open>fwrite_guard w\<close> B(1) False by (subst fwrite_loop.simps) simp
      have bl1: "bytes_written w1 + bytes_to_write w1 \<le> length buf" using B(5) bl by simp
      from "1.IH"[OF \<open>fwrite_guard w\<close> B(1) refl False B(2) bl1]
      obtain w' where
        I: "fwrite_loop fd x buf w1 = Some w'" "winv fd x w'"
          "wrote fd x (take (bytes_written w' - bytes_written w1) (drop (bytes_written w1) buf))
            (commit x w1) (commit x w')"
          "bytes_written w1 \<le> bytes_written w'"
          "bytes_written w' + bytes_to_write w' = bytes_written w1 + bytes_to_write w1"
          "0 < bytes_to_write w' \<longrightarrow> (\<forall>k<2135. free_blocks (fs w') ! k \<noteq> 0)
            \<or> 268 \<le> current_block w' \<or> \<not> did_write_to_disk w1"
        apply (elim exE conjE)
        apply (rule that)
             apply assumption+
        done
      define a b c where "a = bytes_written w" and "b = bytes_written w1"
        and "c = bytes_written w'"
      have abc: "a \<le> b" "b \<le> c" "c \<le> length buf"
        using B(4) I(4,5) bl1 by (simp_all add: a_def b_def c_def)
      have "take (b - a) (drop a buf) @ take (c - b) (drop b buf) = take (c - a) (drop a buf)"
      proof -
        have "drop b buf = drop (b - a) (drop a buf)" using abc by simp
        moreover have "c - a = (b - a) + (c - b)" using abc by simp
        ultimately show ?thesis by (simp only: take_add)
      qed
      moreover have "wrote fd x (take (b - a) (drop a buf) @ take (c - b) (drop b buf))
          (commit x w) (commit x w')"
        unfolding a_def b_def c_def
        using B(3) I(3) winv_bounds[OF wi] by (rule wrote_trans)
      ultimately have "wrote fd x (take (c - a) (drop a buf)) (commit x w) (commit x w')"
        by simp
      then have wr: "wrote fd x (take (bytes_written w' - bytes_written w)
            (drop (bytes_written w) buf)) (commit x w) (commit x w')"
        by (simp only: a_def c_def)
      have dw: "did_write_to_disk w1" using B(7) False by simp
      show ?thesis
      proof (intro exI[of _ w'] conjI impI)
        show "fwrite_loop fd x buf w = Some w'" using e I(1) by simp
        show "bytes_written w \<le> bytes_written w'" using B(4) I(4) by simp
        show "bytes_written w' + bytes_to_write w' = bytes_written w + bytes_to_write w"
          using B(5) I(5) by simp
        show "(\<forall>k<2135. free_blocks (fs w') ! k \<noteq> 0)
            \<or> 268 \<le> current_block w' \<or> \<not> did_write_to_disk w"
          if "0 < bytes_to_write w'"
          using I(6) that dw by blast
      qed (rule I(2) wr)+
    qed
  qed
qed

section \<open>The write call\<close>

lemma list_update_same_isize:
  "x < length ns \<Longrightarrow> ns[x := (ns ! x)\<lparr>isize := isize (ns ! x)\<rparr>] = ns"
  by (simp add: list_update_id)

text \<open>At entry the committed view is the state itself.\<close>

lemma winv_init:
  fixes m :: nat
  assumes inv: "sfs_inv s" and fd: "fd < 128" and x: "0 < x" "x < 128"
    and op: "inode (fdt s ! fd) = int x"
    and rw: "rwptr (fdt s ! fd) \<le> isize (inodes s ! x)"
  defines "w0 \<equiv> \<lparr>fs = s,
      ptr_buff = (if indirect (inodes s ! x) > 0 then load_ptrs (disk s (indirect (inodes s ! x)))
                  else []),
      did_load_ptr_buff = (indirect (inodes s ! x) > 0),
      bytes_written = 0,
      bytes_to_write = m,
      current_block = rwptr (fdt s ! fd) div BLOCK_SIZE,
      rwptr_size_offset = to_int32 (- (int (isize (inodes s ! x)) - int (rwptr (fdt s ! fd)))),
      did_write_to_disk = True\<rparr>"
  shows "commit x w0 = s" "winv fd x w0"
proof -
  note wf = invD_wf[OF inv]
  let ?n = "inodes s ! x" and ?f = "fdt s ! fd"
  have sz: "isize ?n \<le> 274432" using invD_file(1)[OF inv x] .
  have "to_int32 (- (int (isize ?n) - int (rwptr ?f))) = - (int (isize ?n) - int (rwptr ?f))"
    using sz rw by (intro to_int32_id) simp_all
  then have rso: "rwptr_size_offset w0 = int (rwptr ?f) - int (isize ?n)"
    by (simp add: w0_def)
  have m0: "max 0 (rwptr_size_offset w0) = 0" using rso rw by simp
  have f0: "fs w0 = s" "did_load_ptr_buff w0 = (indirect ?n > 0)" "bytes_written w0 = 0"
    "current_block w0 = rwptr ?f div 1024"
    "ptr_buff w0 = (if indirect ?n > 0 then load_ptrs (disk s (indirect ?n)) else [])"
    by (simp_all add: w0_def)
  have i: "(inodes s)[x := ?n\<lparr>isize := nat (int (isize ?n) + max 0 (rwptr_size_offset w0))\<rparr>]
      = inodes s"
    unfolding m0 using wf(1) x by (simp add: list_update_same_isize)
  have d: "(if did_load_ptr_buff w0
            then (disk s)(indirect ?n := store_ptrs (ptr_buff w0)) else disk s) = disk s"
  proof (cases "indirect ?n > 0")
    case True
    have "store_ptrs (load_ptrs (disk s (indirect ?n))) = disk s (indirect ?n)"
      using wf(6) by (intro store_load_ptrs) simp
    with True show ?thesis by (simp add: f0)
  next
    case False
    then show ?thesis by (simp add: f0)
  qed
  show c: "commit x w0 = s"
    unfolding commit_def f0(1) i d by simp
  show "winv fd x w0"
    unfolding winv_def c
  proof (intro conjI impI allI)
    show "length (ptr_buff w0) = 256" if "did_load_ptr_buff w0"
      using that by (simp add: f0)
    show "ptr_buff w0 ! k < 4294967296" if "did_load_ptr_buff w0" "k < 256" for k
      using that load_ptrs_lt[of k "disk s (indirect ?n)"] by (simp add: f0)
  qed (use inv fd x op rso in \<open>simp_all add: f0\<close>)
qed

text \<open>After the loop the update of the metadata produces the committed view.\<close>

lemma fwrite_finish_commit:
  assumes wi: "winv fd x w" and len: "bytes_written w + bytes_to_write w = len"
  shows "fwrite_finish x len w = commit x w"
proof (cases "bytes_written w = 0")
  case True
  then have "bytes_to_write w = len" using len by simp
  then show ?thesis using winvD(11)[OF wi True] by (simp add: fwrite_finish_def)
next
  case False
  then have ne: "bytes_to_write w \<noteq> len" using len by simp
  note W = winvD[OF wi] and F = winv_facts[OF wi]
  let ?n = "inodes (fs w) ! x"
  let ?r = "rwptr_size_offset w"
  have b: "int (isize ?n) + max 0 ?r \<le> 274432" "0 \<le> int (isize ?n) + max 0 ?r"
    using F(8) W(7) by (auto simp: max_def)
  have i: "(if 0 < ?r then (inodes (fs w))[x := ?n\<lparr>isize :=
              nat ((int (isize ?n) + ?r) mod 2 ^ 32)\<rparr>] else inodes (fs w))
      = (inodes (fs w))[x := ?n\<lparr>isize := nat (int (isize ?n) + max 0 ?r)\<rparr>]"
  proof (cases "0 < ?r")
    case True
    then have "(int (isize ?n) + ?r) mod 2 ^ 32 = int (isize ?n) + ?r"
      using b by (intro mod_pos_pos_trivial) (simp_all add: max_def)
    with True show ?thesis by (simp add: max_def)
  next
    case False
    then have "max 0 ?r = 0" by simp
    with False show ?thesis using F(1) W(4) by (simp add: list_update_same_isize)
  qed
  show ?thesis
    using ne i by (cases "0 < ?r") (simp_all add: fwrite_finish_def commit_def Let_def)
qed

text \<open>
  A write through an open descriptor whose pointer does not exceed the size: the call
  returns the number \<open>m\<close> of bytes written, the invariant is kept, the first \<open>m\<close> bytes of the
  buffer have replaced the contents from the old pointer on, and the write is short only
  when the bitmap has no free block left or the file has reached its largest size.
\<close>

lemma fwrite_open:
  assumes inv: "sfs_inv s" and fd: "0 \<le> fd" "fd < 128"
    and op: "inode (fdt s ! nat fd) = int x" "0 < x"
    and len: "0 < len" "nat len \<le> length buf"
    and rw: "rwptr (fdt s ! nat fd) \<le> isize (inodes s ! x)"
  shows "\<exists>m s'. sfs_fwrite s fd buf len = Some (int m, s') \<and> m \<le> nat len \<and> sfs_inv s'
     \<and> wrote (nat fd) x (take m buf) s s'
     \<and> (m < nat len \<longrightarrow> (\<forall>k<2135. free_blocks s' ! k \<noteq> 0)
            \<or> 274432 \<le> rwptr (fdt s' ! nat fd))"
proof -
  define j where "j = nat fd"
  have j: "j < 128" "fd = int j" using fd by (simp_all add: j_def)
  have op': "inode (fdt s ! j) = int x" using op(1) by (simp add: j_def)
  have x: "x < 128" using invD_fdt_bound(1)[OF inv j(1)] op' op(2) by simp
  let ?n = "inodes s ! x" and ?f = "fdt s ! j"
  have rw': "rwptr ?f \<le> isize ?n" using rw by (simp add: j_def)
  define w0 where "w0 = \<lparr>fs = s,
      ptr_buff = (if indirect ?n > 0 then load_ptrs (disk s (indirect ?n)) else []),
      did_load_ptr_buff = (indirect ?n > 0),
      bytes_written = 0,
      bytes_to_write = nat len,
      current_block = rwptr ?f div BLOCK_SIZE,
      rwptr_size_offset = to_int32 (- (int (isize ?n) - int (rwptr ?f))),
      did_write_to_disk = True\<rparr>"
  note I = winv_init[OF inv j(1) op(2) x op' rw', of "nat len", folded w0_def]
  have w0: "bytes_written w0 = 0" "bytes_to_write w0 = nat len" "did_write_to_disk w0"
    by (simp_all add: w0_def)
  have bl: "bytes_written w0 + bytes_to_write w0 \<le> length buf" using len(2) by (simp add: w0)
  from fwrite_loop_spec[OF I(2) bl] obtain w' where
    L: "fwrite_loop j x buf w0 = Some w'" "winv j x w'"
      "wrote j x (take (bytes_written w' - bytes_written w0) (drop (bytes_written w0) buf))
          (commit x w0) (commit x w')"
      "bytes_written w0 \<le> bytes_written w'"
      "bytes_written w' + bytes_to_write w' = bytes_written w0 + bytes_to_write w0"
      "0 < bytes_to_write w' \<longrightarrow> (\<forall>k<2135. free_blocks (fs w') ! k \<noteq> 0)
            \<or> 268 \<le> current_block w' \<or> \<not> did_write_to_disk w0"
    apply (elim exE conjE)
    apply (rule that)
         apply assumption+
    done
  have sz: "isize ?n \<le> 274432" using invD_file(1)[OF inv op(2) x] .
  have g: "\<not> (isize ?n < rwptr ?f \<or> 269 * 1024 \<le> rwptr ?f)" using rw' sz by simp
  have fin: "fwrite_finish x (nat len) w' = commit x w'"
    using L(2) by (rule fwrite_finish_commit) (simp add: L(5) w0)
  have "sfs_fwrite s fd buf len = (case fwrite_loop j x buf w0 of None \<Rightarrow> None
      | Some w \<Rightarrow> Some (int (bytes_written w), fwrite_finish x (nat len) w))"
    using len(1) j op' op(2) x g
    by (simp add: sfs_fwrite_def Let_def w0_def)
  then have res: "sfs_fwrite s fd buf len = Some (int (bytes_written w'), commit x w')"
    using L(1) fin by simp
  show ?thesis
  proof (intro exI[of _ "bytes_written w'"] exI[of _ "commit x w'"] conjI impI)
    show "sfs_fwrite s fd buf len = Some (int (bytes_written w'), commit x w')" by (rule res)
    show "bytes_written w' \<le> nat len" using L(5) by (simp add: w0)
    show "sfs_inv (commit x w')" using winvD(1)[OF L(2)] .
    show "wrote (nat fd) x (take (bytes_written w') buf) s (commit x w')"
      using L(3) by (simp add: w0 I(1) j_def)
    show "(\<forall>k<2135. free_blocks (commit x w') ! k \<noteq> 0)
            \<or> 274432 \<le> rwptr (fdt (commit x w') ! nat fd)"
      if "bytes_written w' < nat len"
    proof -
      have "0 < bytes_to_write w'" using that L(5) by (simp add: w0)
      with L(6) w0(3) have "(\<forall>k<2135. free_blocks (fs w') ! k \<noteq> 0) \<or> 268 \<le> current_block w'"
        by blast
      moreover have "274432 \<le> rwptr (fdt (fs w') ! j)" if "268 \<le> current_block w'"
        using that winvD(6)[OF L(2)] by simp
      ultimately show ?thesis by (auto simp: j_def)
    qed
  qed
qed

section \<open>The calls on states that satisfy the invariant\<close>

subsection \<open>The fresh file system\<close>

lemma fresh_inode:
  "i < 128 \<Longrightarrow> inodes fresh ! i =
     \<lparr>mode = 0, link_cnt = (if i = 0 then 1 else 0), isize = 0, direct = replicate 12 0,
      indirect = 0\<rparr>"
  by (simp add: fresh_fields)

lemma fresh_fd:
  "j < 128 \<Longrightarrow> fdt fresh ! j = \<lparr>inode = (if j = 0 then 0 else - 1), rwptr = 0\<rparr>"
  by (simp add: fresh_fields)

lemma blk_zero: "indirect n = 0 \<Longrightarrow> direct n = replicate 12 0 \<Longrightarrow> blk s n b = 0"
  by (simp add: blk_def ptrs_of_def)

lemma used_blocks_fresh: "used_blocks fresh = 0"
  by (simp add: used_blocks_def fresh_fields)

lemma sfs_inv_fresh: "sfs_inv fresh"
  unfolding sfs_inv_def
proof (intro conjI allI impI)
  show "wf_arrays fresh"
    by (simp add: wf_arrays_def fresh_fields fresh_disk_def zero_block_def)
  have b0: "blk fresh (inodes fresh ! i) b = 0" if "i < 128" for i b
    using that by (intro blk_zero) (simp_all add: fresh_inode)
  show "file_inv fresh (inodes fresh ! i)" if "file_inode i" for i
    using that b0[of i] by (simp add: file_inv_def fresh_inode)
  show "blocks_inv fresh"
    unfolding blocks_inv_def
    by (simp add: b0 cong: conj_cong)
      (simp add: fresh_inode fresh_fields(4,7) fresh_disk_def cong: conj_cong)
  show "fdt_inv fresh"
    unfolding fdt_inv_def by (simp add: fresh_fd cong: conj_cong)
qed

subsection \<open>Steps that change only the descriptors, the directory and the link counts\<close>

lemma inv_meta_step:
  assumes inv: "sfs_inv s"
    and len: "length (fdt s') = 128" "length (root s') = 127" "length (inodes s') = 128"
    and same: "free_blocks s' = free_blocks s" "disk s' = disk s"
    and ino: "\<And>i. i < 128 \<Longrightarrow> direct (inodes s' ! i) = direct (inodes s ! i)
        \<and> indirect (inodes s' ! i) = indirect (inodes s ! i)
        \<and> isize (inodes s' ! i) = isize (inodes s ! i)
        \<and> (0 < i \<longrightarrow> link_cnt (inodes s' ! i) \<le> 1
            \<and> (link_cnt (inodes s' ! i) = 0 \<longrightarrow> link_cnt (inodes s ! i) = 0))"
    and fdt: "fdt_inv s'"
  shows "sfs_inv s'"
proof -
  note wf = invD_wf[OF inv]
  have b: "blk s' (inodes s' ! i) b = blk s (inodes s ! i) b" if "i < 128" for i b
    using ino[OF that] same(2) by (simp add: blk_def ptrs_of_def)
  have i: "indirect (inodes s' ! i) = indirect (inodes s ! i)" if "i < 128" for i
    using ino[OF that] by simp
  have "wf_arrays s'"
    unfolding wf_arrays_def using wf len same ino by simp
  moreover have "file_inv s' (inodes s' ! i)" if "file_inode i" for i
  proof -
    from that have i: "0 < i" "i < 128" by simp_all
    show ?thesis
      using invD_file[OF inv i] ino[OF i(2)] b[OF i(2)] i(1)
      by (simp add: file_inv_def)
  qed
  moreover have "blocks_inv s'"
    unfolding blocks_inv_def
  proof (intro conjI allI impI)
    fix i b assume "file_inode i \<and> b < LOOP_BLOCK_LIMIT \<and> 0 < blk s' (inodes s' ! i) b"
    then have h: "0 < i" "i < 128" "b < 268" "0 < blk s (inodes s ! i) b"
      using b[of i b] by simp_all
    from invD_blk[OF inv h]
    show "data_region (blk s' (inodes s' ! i) b)"
      "free_blocks s' ! (blk s' (inodes s' ! i) b - DATA_BLOCKS_OFFSET) = 1"
      using b[OF h(2), of b] same(1) by simp_all
  next
    fix i assume "file_inode i \<and> 0 < indirect (inodes s' ! i)"
    then have h: "0 < i" "i < 128" "0 < indirect (inodes s ! i)" using i[of i] by simp_all
    from invD_idx[OF inv h]
    show "data_region (indirect (inodes s' ! i))"
      "free_blocks s' ! (indirect (inodes s' ! i) - DATA_BLOCKS_OFFSET) = 1"
      using i[OF h(2)] same(1) by simp_all
  next
    fix i b j c
    assume "file_inode i \<and> file_inode j \<and> b < LOOP_BLOCK_LIMIT \<and> c < LOOP_BLOCK_LIMIT
       \<and> 0 < blk s' (inodes s' ! i) b \<and> blk s' (inodes s' ! i) b = blk s' (inodes s' ! j) c"
    then have h: "0 < i" "i < 128" "0 < j" "j < 128" "b < 268" "c < 268"
      "0 < blk s (inodes s ! i) b" "blk s (inodes s ! i) b = blk s (inodes s ! j) c"
      using b[of i b] b[of j c] by simp_all
    from invD_blk_inj[OF inv h] show "i = j" "b = c" by simp_all
  next
    fix i j
    assume "file_inode i \<and> file_inode j \<and> 0 < indirect (inodes s' ! i)
       \<and> indirect (inodes s' ! i) = indirect (inodes s' ! j)"
    then have h: "0 < i" "i < 128" "0 < j" "j < 128" "0 < indirect (inodes s ! i)"
      "indirect (inodes s ! i) = indirect (inodes s ! j)"
      using i[of i] i[of j] by simp_all
    from invD_idx_inj[OF inv h] show "i = j" .
  next
    fix i b j
    assume "file_inode i \<and> file_inode j \<and> b < LOOP_BLOCK_LIMIT \<and> 0 < blk s' (inodes s' ! i) b"
    then have h: "0 < i" "i < 128" "0 < j" "j < 128" "b < 268" "0 < blk s (inodes s ! i) b"
      using b[of i b] by simp_all
    from invD_blk_idx[OF inv h]
    show "blk s' (inodes s' ! i) b \<noteq> indirect (inodes s' ! j)"
      using b[OF h(2), of b] i[OF h(4)] by simp
  next
    fix k assume "k < MAX_DATA_BLOCKS_SCALED_DOWN"
    then have k: "k < 2135" by simp
    show "free_blocks s' ! k \<le> 1" using invD_bitmap(1)[OF inv k] same(1) by simp
    show "disk s' (k + DATA_BLOCKS_OFFSET) = zero_block" if "free_blocks s' ! k = 0"
      using invD_bitmap(2)[OF inv k] that same by simp
  qed
  ultimately show ?thesis using fdt by (simp add: sfs_inv_def)
qed

lemma fdt_inv_bind:
  assumes inv: "fdt_inv s" and j: "0 < j" "j < 128" and x: "0 < x" "x < 128"
    and nb: "\<And>j'. j' < 128 \<Longrightarrow> inode (fdt s ! j') \<noteq> int x"
    and len: "length (fdt s) = 128"
    and f: "fdt s' = (fdt s)[j := \<lparr>inode = int x, rwptr = r\<rparr>]"
    and l: "\<And>i. i < 128 \<Longrightarrow> link_cnt (inodes s' ! i) = (if i = x then 1 else link_cnt (inodes s ! i))"
  shows "fdt_inv s'"
proof -
  note D = fdt_invD[OF inv]
  have n: "inode (fdt s' ! k) = (if k = j then int x else inode (fdt s ! k))" if "k < 128" for k
    using that len by (simp add: f nth_list_update)
  show ?thesis
    unfolding fdt_inv_def
  proof (intro conjI allI impI)
    show "inode (fdt s' ! 0) = 0" using D(1) n[of 0] j by simp
  next
    fix k assume k: "0 < k \<and> k < NUM_INODES"
    then have k': "0 < k" "k < 128" by simp_all
    show "inode (fdt s' ! k) = - 1
          \<or> (0 < inode (fdt s' ! k) \<and> inode (fdt s' ! k) < int NUM_INODES
             \<and> link_cnt (inodes s' ! nat (inode (fdt s' ! k))) = 1)"
    proof (cases "k = j")
      case True
      then show ?thesis using n[OF k'(2)] x l[OF x(2)] by simp
    next
      case False
      from D(2)[of k] k' consider "inode (fdt s ! k) = - 1"
        | "0 < inode (fdt s ! k)" "inode (fdt s ! k) < 128"
          "link_cnt (inodes s ! nat (inode (fdt s ! k))) = 1"
        by auto
      then show ?thesis
      proof cases
        case 1
        then show ?thesis using n[OF k'(2)] False by simp
      next
        case 2
        have "nat (inode (fdt s ! k)) < 128" using 2 by simp
        from l[OF this] 2(3) have "link_cnt (inodes s' ! nat (inode (fdt s ! k))) = 1" by simp
        then show ?thesis using n[OF k'(2)] False 2 by simp
      qed
    qed
  next
    fix k k'
    assume h: "k < NUM_INODES \<and> k' < NUM_INODES \<and> 0 < inode (fdt s' ! k)
       \<and> inode (fdt s' ! k) = inode (fdt s' ! k')"
    then have kk: "k < 128" "k' < 128" by simp_all
    show "k = k'"
    proof (cases "k = j \<or> k' = j")
      case True
      then show ?thesis using h n[OF kk(1)] n[OF kk(2)] nb[OF kk(1)] nb[OF kk(2)]
        by (auto split: if_splits)
    next
      case False
      then have "0 < inode (fdt s ! k)" "inode (fdt s ! k) = inode (fdt s ! k')"
        using h n[OF kk(1)] n[OF kk(2)] by simp_all
      with D(3)[of k k'] kk show ?thesis by simp
    qed
  qed
qed


subsection \<open>Size query and open of an existing file\<close>

lemma getfilesize_loop_nomatch:
  "\<forall>k\<in>set is. cstr p \<noteq> names (root s ! k) \<Longrightarrow> getfilesize_loop s p sz is = sz"
  by (induction "is" arbitrary: sz) simp_all

lemma getfilesize_loop_append:
  "getfilesize_loop s p sz (xs @ ys) = getfilesize_loop s p (getfilesize_loop s p sz xs) ys"
  by (induction xs arbitrary: sz) simp_all

text \<open>The size reported for a name is that of the last directory slot that matches.\<close>

lemma getfilesize_last:
  assumes "i < 127" "cstr p = names (root s ! i)"
    and "\<And>k. i < k \<Longrightarrow> k < 127 \<Longrightarrow> cstr p \<noteq> names (root s ! k)"
  shows "sfs_getfilesize s p = to_int32 (int (isize (inodes s ! (i + 1))))"
proof -
  have "[0..<127] = [0..<i] @ i # [Suc i..<127]"
    using assms(1) by (metis le0 less_imp_le_nat upt_add_eq_append upt_conv_Cons le_add_diff_inverse)
  moreover have "getfilesize_loop s p v [Suc i..<127] = v" for v
    using assms(3) by (intro getfilesize_loop_nomatch) simp
  ultimately show ?thesis
    using assms(2) by (simp add: sfs_getfilesize_def getfilesize_loop_append)
qed

lemma scan_fdt_eq:
  "scan_fdt s ino ff js =
     (if \<exists>j\<in>set js. inode (fdt s ! j) = ino then None
      else Some (if ff = - 1
                 then (case List.find (\<lambda>j. inode (fdt s ! j) = - 1) js of
                         None \<Rightarrow> - 1 | Some j \<Rightarrow> int j)
                 else ff))"
  by (induction js arbitrary: ff) auto

lemma fopen_existing:
  assumes "strlen name < 60" "find_name s name [0..<127] = Some i"
    and "\<And>j. 1 \<le> j \<Longrightarrow> j < 128 \<Longrightarrow> inode (fdt s ! j) \<noteq> int i + 1"
    and "List.find (\<lambda>j. inode (fdt s ! j) = - 1) [1..<128] = Some j"
  shows "sfs_fopen s name = (int j, s\<lparr>
       fdt := (fdt s)[j := \<lparr>inode = int i + 1, rwptr = nat (sfs_getfilesize s name mod 2 ^ 64)\<rparr>],
       root := (root s)[i := (root s ! i)\<lparr>dmode := 1\<rparr>],
       inodes := (inodes s)[i + 1 := (inodes s ! (i + 1))\<lparr>link_cnt := 1\<rparr>]\<rparr>)"
proof -
  have "scan_fdt s (int i + 1) (- 1) [1..<128] = Some (int j)"
    using assms(3,4) by (simp add: scan_fdt_eq)
  then show ?thesis using assms(1,2) by (simp add: sfs_fopen_def)
qed

text \<open>A bitmap without a free byte has 2135 bytes set.\<close>

lemma used_blocks_full:
  assumes "length (free_blocks s) = 2135" "\<forall>k<2135. free_blocks s ! k \<noteq> 0"
    and "\<forall>k<2135. free_blocks s ! k \<le> 1"
  shows "used_blocks s = 2135"
proof -
  have "v = 1" if "v \<in> set (free_blocks s)" for v
  proof -
    from that assms(1) obtain k where k: "k < 2135" "v = free_blocks s ! k"
      by (auto simp: in_set_conv_nth)
    from assms(2,3) k(1) have "free_blocks s ! k \<noteq> 0" "free_blocks s ! k \<le> 1" by simp_all
    then show ?thesis using k(2) by simp
  qed
  then have "\<forall>v\<in>set (free_blocks s). v = 1" by simp
  then have "filter (\<lambda>v. v = 1) (free_blocks s) = free_blocks s" by (simp add: filter_id_conv)
  then show ?thesis using assms(1) by (simp add: used_blocks_def)
qed

lemma nblocks_le: "sz \<le> 274432 \<Longrightarrow> nblocks sz \<le> 268"
  by (simp add: nblocks_def)

text \<open>A write that fits below the largest size, with enough free blocks, is complete.\<close>

lemma fwrite_complete:
  assumes inv: "sfs_inv s" and fd: "0 \<le> fd" "fd < 128"
    and op: "inode (fdt s ! nat fd) = int x" "0 < x"
    and len: "0 < len" "nat len \<le> length buf"
    and rw: "rwptr (fdt s ! nat fd) \<le> isize (inodes s ! x)"
    and room: "rwptr (fdt s ! nat fd) + nat len \<le> 274432"
    and free: "used_blocks s + 269 < 2135"
  shows "\<exists>s'. sfs_fwrite s fd buf len = Some (len, s') \<and> sfs_inv s'
     \<and> wrote (nat fd) x (take (nat len) buf) s s'"
proof -
  from fwrite_open[OF inv fd op len rw] obtain m s' where
    R: "sfs_fwrite s fd buf len = Some (int m, s')" "m \<le> nat len" "sfs_inv s'"
      "wrote (nat fd) x (take m buf) s s'"
      "m < nat len \<longrightarrow> (\<forall>k<2135. free_blocks s' ! k \<noteq> 0)
            \<or> 274432 \<le> rwptr (fdt s' ! nat fd)"
    apply (elim exE conjE)
    apply (rule that)
        apply assumption+
    done
  note W = wroteD[OF R(4)]
  have x: "x < 128" using invD_fdt_bound(1)[OF inv, of "nat fd"] fd op by simp
  have lt: "length (take m buf) = m" using R(2) len(2) by simp
  have "m = nat len"
  proof (rule ccontr)
    assume "m \<noteq> nat len"
    then have lt': "m < nat len" using R(2) by simp
    have "rwptr (fdt s' ! nat fd) = rwptr (fdt s ! nat fd) + m"
      using W(5) fd invD_wf(2)[OF inv] lt by simp
    then have "\<not> 274432 \<le> rwptr (fdt s' ! nat fd)" using lt' room by simp
    with R(5) lt' have full: "\<forall>k<2135. free_blocks s' ! k \<noteq> 0" by blast
    have "\<forall>k<2135. free_blocks s' ! k \<le> 1" using invD_bitmap(1)[OF R(3)] by simp
    with full have u: "used_blocks s' = 2135"
      using invD_wf(4)[OF R(3)] by (intro used_blocks_full) simp_all
    have "nblocks (isize (inodes s' ! x)) \<le> 268"
      using invD_file(1)[OF R(3) op(2) x] by (rule nblocks_le)
    with W(12) u free show False by (simp split: if_splits)
  qed
  with R show ?thesis using len(1) by auto
qed

section \<open>Sessions on a fresh file system\<close>

lemma nblocks_0: "nblocks 0 = 0"
  by (simp add: nblocks_def)



text \<open>The state after the first file was created.\<close>

lemma opened_fresh:
  assumes "cstr name \<noteq> []" "strlen name < 60"
  shows "\<exists>s1. sfs_fopen fresh name = (1, s1) \<and> sfs_inv s1
     \<and> fdt s1 = (fdt fresh)[1 := \<lparr>inode = 1, rwptr = 0\<rparr>]
     \<and> root s1 = (root fresh)[0 := \<lparr>dmode = 1, names = cstr name\<rparr>]
     \<and> inodes s1 = (inodes fresh)[1 := \<lparr>mode = 1, link_cnt = 1, isize = 0,
          direct = replicate 12 0, indirect = 0\<rparr>]
     \<and> free_blocks s1 = free_blocks fresh \<and> disk s1 = disk fresh"
proof -
  define s1 where "s1 = fresh\<lparr>
     fdt := (fdt fresh)[1 := \<lparr>inode = 1, rwptr = 0\<rparr>],
     num_files := 1,
     inodes := (inodes fresh)[1 := \<lparr>mode = 1, link_cnt = 1, isize = 0,
        direct = replicate 12 0, indirect = 0\<rparr>],
     root := (root fresh)[0 := \<lparr>dmode = 1, names = cstr name\<rparr>]\<rparr>"
  have o: "sfs_fopen fresh name = (1, s1)"
    unfolding s1_def using assms by (rule fopen_fresh)
  have f: "fdt s1 = (fdt fresh)[1 := \<lparr>inode = 1, rwptr = 0\<rparr>]"
    "root s1 = (root fresh)[0 := \<lparr>dmode = 1, names = cstr name\<rparr>]"
    "inodes s1 = (inodes fresh)[1 := \<lparr>mode = 1, link_cnt = 1, isize = 0,
          direct = replicate 12 0, indirect = 0\<rparr>]"
    "free_blocks s1 = free_blocks fresh" "disk s1 = disk fresh"
    by (simp_all add: s1_def)
  note wf = invD_wf[OF sfs_inv_fresh]
  have n: "inodes s1 ! i = (if i = 1 then \<lparr>mode = 1, link_cnt = 1, isize = 0,
          direct = replicate 12 0, indirect = 0\<rparr> else inodes fresh ! i)" if "i < 128" for i
    using that wf(1) by (simp add: f nth_list_update)
  have "sfs_inv s1"
    using sfs_inv_fresh
  proof (rule inv_meta_step)
    show "fdt_inv s1"
    proof (rule fdt_inv_bind[where j = 1 and x = 1 and r = 0 and s = fresh])
      show "fdt_inv fresh" using sfs_inv_fresh by (rule inv_parts(3))
      show "inode (fdt fresh ! j') \<noteq> int 1" if "j' < 128" for j'
        using that by (simp add: fresh_fd)
      show "fdt s1 = (fdt fresh)[1 := \<lparr>inode = int 1, rwptr = 0\<rparr>]" by (simp add: f)
      show "link_cnt (inodes s1 ! i) = (if i = 1 then 1 else link_cnt (inodes fresh ! i))"
        if "i < 128" for i
        using n[OF that] by simp
    qed (simp_all add: wf)
    show "direct (inodes s1 ! i) = direct (inodes fresh ! i)
        \<and> indirect (inodes s1 ! i) = indirect (inodes fresh ! i)
        \<and> isize (inodes s1 ! i) = isize (inodes fresh ! i)
        \<and> (0 < i \<longrightarrow> link_cnt (inodes s1 ! i) \<le> 1
            \<and> (link_cnt (inodes s1 ! i) = 0 \<longrightarrow> link_cnt (inodes fresh ! i) = 0))"
      if "i < 128" for i
      using n[OF that] that by (simp add: fresh_inode)
  qed (simp_all add: f wf)
  with o f show ?thesis by blast
qed

text \<open>The state after a first write to the first file.\<close>

lemma written_fresh:
  assumes nm: "cstr name \<noteq> []" "strlen name < 60"
    and B: "0 < length B" "length B \<le> 274432"
  shows "\<exists>s1 s2. sfs_fopen fresh name = (1, s1)
     \<and> sfs_fwrite s1 1 B (int (length B)) = Some (int (length B), s2) \<and> sfs_inv s2
     \<and> fdt s2 = (fdt fresh)[1 := \<lparr>inode = 1, rwptr = length B\<rparr>]
     \<and> root s2 = (root fresh)[0 := \<lparr>dmode = 1, names = cstr name\<rparr>]
     \<and> isize (inodes s2 ! 1) = length B \<and> link_cnt (inodes s2 ! 1) = 1
     \<and> contents s2 (inodes s2 ! 1) = B
     \<and> int (used_blocks s2) = int (nblocks (length B))
          + (if indirect (inodes s2 ! 1) > 0 then 1 else 0)"
proof -
  from opened_fresh[OF nm] obtain s1 where
    S: "sfs_fopen fresh name = (1, s1)" "sfs_inv s1"
      "fdt s1 = (fdt fresh)[1 := \<lparr>inode = 1, rwptr = 0\<rparr>]"
      "root s1 = (root fresh)[0 := \<lparr>dmode = 1, names = cstr name\<rparr>]"
      "inodes s1 = (inodes fresh)[1 := \<lparr>mode = 1, link_cnt = 1, isize = 0,
          direct = replicate 12 0, indirect = 0\<rparr>]"
      "free_blocks s1 = free_blocks fresh" "disk s1 = disk fresh"
    by blast
  note wf = invD_wf[OF sfs_inv_fresh]
  have f1: "fdt s1 ! 1 = \<lparr>inode = 1, rwptr = 0\<rparr>" using wf(2) by (simp add: S(3))
  have n1: "inodes s1 ! 1 = \<lparr>mode = 1, link_cnt = 1, isize = 0,
          direct = replicate 12 0, indirect = 0\<rparr>" using wf(1) by (simp add: S(5))
  have u1: "used_blocks s1 = 0" using used_blocks_fresh by (simp add: used_blocks_def S(6))
  have "\<exists>s'. sfs_fwrite s1 1 B (int (length B)) = Some (int (length B), s') \<and> sfs_inv s'
     \<and> wrote (nat 1) 1 (take (nat (int (length B))) B) s1 s'"
    using S(2)
  proof (rule fwrite_complete)
    show "inode (fdt s1 ! nat 1) = int 1" using f1 by simp
    show "rwptr (fdt s1 ! nat 1) \<le> isize (inodes s1 ! 1)" using f1 by simp
    show "rwptr (fdt s1 ! nat 1) + nat (int (length B)) \<le> 274432" using B f1 by simp
    show "used_blocks s1 + 269 < 2135" by (simp add: u1)
  qed (use B in simp_all)
  then obtain s2 where
    T: "sfs_fwrite s1 1 B (int (length B)) = Some (int (length B), s2)" "sfs_inv s2"
      "wrote 1 1 B s1 s2"
    by auto
  note W = wroteD[OF T(3)]
  have c1: "contents s1 (inodes s1 ! 1) = []" using n1 by (simp add: contents_def)
  have "fdt s2 = (fdt fresh)[1 := \<lparr>inode = 1, rwptr = length B\<rparr>]"
    using W(5) f1 by (simp add: S(3))
  moreover have "root s2 = (root fresh)[0 := \<lparr>dmode = 1, names = cstr name\<rparr>]"
    using W(1) S(4) by simp
  moreover have "isize (inodes s2 ! 1) = length B" using W(10) f1 n1 by simp
  moreover have "link_cnt (inodes s2 ! 1) = 1" using W(9) n1 by simp
  moreover have "contents s2 (inodes s2 ! 1) = B" using W(11) c1 by simp
  moreover have "int (used_blocks s2) = int (nblocks (length B))
          + (if indirect (inodes s2 ! 1) > 0 then 1 else 0)"
    using W(12) \<open>isize (inodes s2 ! 1) = length B\<close> n1 by (simp add: u1 nblocks_0)
  ultimately show ?thesis using S(1) T(1,2) by blast
qed


lemma blk_same_disk: "disk s' = disk s \<Longrightarrow> blk s' n b = blk s n b"
  by (rule blk_frame) simp

lemma no_holes_frame: "disk s' = disk s \<Longrightarrow> no_holes s' n = no_holes s n"
  using blk_same_disk[of s' s n] by (simp add: no_holes_def)

lemma contents_frame: "disk s' = disk s \<Longrightarrow> contents s' n = contents s n"
  using blk_same_disk[of s' s n] by (simp add: contents_def file_byte_def)

lemma inv_no_holes:
  assumes "sfs_inv s" "0 < i" "i < 128"
  shows "no_holes s (inodes s ! i)"
  unfolding no_holes_def
proof (intro conjI allI impI)
  show "isize (inodes s ! i) \<le> MAX_FILE_BYTES" using invD_file(1)[OF assms] by simp
  fix b assume b: "b * BLOCK_SIZE < isize (inodes s ! i)"
  then have "b * 1024 < 268 * 1024" using invD_file(1)[OF assms] by simp
  then have "b < 268" by simp
  from invD_file(2)[OF assms this] b show "0 < blk s (inodes s ! i) b" by simp
qed

lemma name_f: "cstr ''f'' \<noteq> []" "strlen ''f'' < 60" "cstr ''f'' = ''f''"
  by (simp_all add: cstr_def strlen_def)

section \<open>The claims on writing, reading and seeking\<close>

text \<open>
  C4. A write through a descriptor that is bound to a file, in a state that satisfies the
  invariant and with a buffer that holds \<open>length\<close> bytes: the call returns, and when it
  has written at least one byte the size of the inode has grown by
  \<open>max(0, rwptr_final - size_initial)\<close>, where \<open>rwptr_final\<close> is the pointer of the
  descriptor after the loop; when it has written no byte the size is what it was.
\<close>

theorem fwrite_size_update:
  assumes "sfs_inv s" "0 \<le> fd" "fd < int NUM_INODES" "0 < inode (fdt s ! nat fd)"
    and "nat len \<le> length buf"
  shows "\<exists>m s'. sfs_fwrite s fd buf len = Some (m, s')
     \<and> (let x = nat (inode (fdt s ! nat fd));
             size_initial = int (isize (inodes s ! x));
             rwptr_final = int (rwptr (fdt s' ! nat fd))
         in int (isize (inodes s' ! x))
              = (if 0 < m then size_initial + max 0 (rwptr_final - size_initial)
                 else size_initial))"
proof -
  define x where "x = nat (inode (fdt s ! nat fd))"
  have fd: "nat fd < 128" "fd < 128" using assms(2,3) by simp_all
  have op: "inode (fdt s ! nat fd) = int x" "0 < x" using assms(4) by (simp_all add: x_def)
  have x: "x < 128" using invD_fdt_bound(1)[OF assms(1) fd(1) assms(4)] op by simp
  let ?f = "fdt s ! nat fd" and ?n = "inodes s ! x"
  have same: ?thesis if "sfs_fwrite s fd buf len = Some (0, s)"
    using that by (simp add: Let_def)
  show ?thesis
  proof (cases "0 < len \<and> rwptr ?f \<le> isize ?n")
    case False
    have "sfs_fwrite s fd buf len = Some (0, s)"
      using False assms(2,3) op x by (auto simp: sfs_fwrite_def Let_def)
    then show ?thesis by (rule same)
  next
    case True
    then have len: "0 < len" and rw: "rwptr ?f \<le> isize ?n" by simp_all
    from fwrite_open[OF assms(1,2) fd(2) op len assms(5) rw] obtain m s' where
      R: "sfs_fwrite s fd buf len = Some (int m, s')" "m \<le> nat len"
        "wrote (nat fd) x (take m buf) s s'"
      apply (elim exE conjE)
      apply (rule that)
        apply assumption+
      done
    note W = wroteD[OF R(3)]
    have lt: "length (take m buf) = m" using R(2) assms(5) by simp
    have rf: "rwptr (fdt s' ! nat fd) = rwptr ?f + m"
      using W(5) fd(1) invD_wf(2)[OF assms(1)] lt by simp
    have sz: "isize (inodes s' ! x) = max (isize ?n) (rwptr ?f + m)"
      using W(10) lt by simp
    have "int (isize (inodes s' ! x))
        = (if 0 < int m then int (isize ?n) + max 0 (int (rwptr (fdt s' ! nat fd)) - int (isize ?n))
           else int (isize ?n))"
      using rw by (simp add: rf sz max_def)
    then show ?thesis using R(1) by (simp add: Let_def x_def[symmetric])
  qed
qed

theorem fwrite_size_update_witness:
  "\<exists>s1 m s'. sfs_fopen fresh ''f'' = (1, s1) \<and> sfs_fwrite s1 1 ''xyz'' 3 = Some (m, s')
     \<and> (let x = nat (inode (fdt s1 ! nat 1));
             size_initial = int (isize (inodes s1 ! x));
             rwptr_final = int (rwptr (fdt s' ! nat 1))
         in int (isize (inodes s' ! x))
              = (if 0 < m then size_initial + max 0 (rwptr_final - size_initial)
                 else size_initial))"
proof -
  from opened_fresh[OF name_f(1,2)] obtain s1 where
    S: "sfs_fopen fresh ''f'' = (1, s1)" "sfs_inv s1"
      "fdt s1 = (fdt fresh)[1 := \<lparr>inode = 1, rwptr = 0\<rparr>]"
    by blast
  have f1: "fdt s1 ! 1 = \<lparr>inode = 1, rwptr = 0\<rparr>"
    using invD_wf(2)[OF sfs_inv_fresh] by (simp add: S(3))
  have "\<exists>m s'. sfs_fwrite s1 1 ''xyz'' 3 = Some (m, s')
     \<and> (let x = nat (inode (fdt s1 ! nat 1));
             size_initial = int (isize (inodes s1 ! x));
             rwptr_final = int (rwptr (fdt s' ! nat 1))
         in int (isize (inodes s' ! x))
              = (if 0 < m then size_initial + max 0 (rwptr_final - size_initial)
                 else size_initial))"
    using S(2) by (rule fwrite_size_update) (use f1 in simp_all)
  with S(1) show ?thesis by blast
qed



text \<open>A read in the middle of a file that was written to a fresh file system.\<close>

theorem fread_spec_witness:
  "\<exists>s1 s2 s3 s4. sfs_fopen fresh ''f'' = (1, s1)
     \<and> sfs_fwrite s1 1 ''hello'' 5 = Some (5, s2)
     \<and> sfs_fseek s2 1 2 = Some (0, s3)
     \<and> sfs_fread s3 1 ''......'' 2 = Some (2, ''ll....'', s4)"
proof -
  define B where "B = ''hello''"
  have lB: "length B = 5" by (simp add: B_def)
  have B: "0 < length B" "length B \<le> 274432" by (simp_all add: lB)
  from written_fresh[OF name_f(1,2) B] obtain s1 s2 where
    W0: "sfs_fopen fresh ''f'' = (1, s1)"
      "sfs_fwrite s1 1 B 5 = Some (5, s2)" "sfs_inv s2"
      "fdt s2 = (fdt fresh)[1 := \<lparr>inode = 1, rwptr = 5\<rparr>]"
      "isize (inodes s2 ! 1) = 5"
      "contents s2 (inodes s2 ! 1) = B"
    unfolding lB by auto
  note W = W0[unfolded B_def]
  note wf = invD_wf[OF sfs_inv_fresh]
  define s3 where "s3 = s2\<lparr>fdt := (fdt fresh)[1 := \<lparr>inode = 1, rwptr = 2\<rparr>]\<rparr>"
  have f2: "fdt s2 ! 1 = \<lparr>inode = 1, rwptr = 5\<rparr>" using wf(2) by (simp add: W(4))
  have k: "sfs_fseek s2 1 2 = Some (0, s3)"
    using f2 W(5) by (simp add: sfs_fseek_def Let_def) (simp add: s3_def W(4))
  have f3: "fdt s3 ! 1 = \<lparr>inode = 1, rwptr = 2\<rparr>" using wf(2) by (simp add: s3_def)
  have n3: "inodes s3 = inodes s2" "disk s3 = disk s2" by (simp_all add: s3_def)
  have nh: "no_holes s3 (inodes s2 ! 1)"
    using no_holes_frame[OF n3(2)] inv_no_holes[OF W(3), of 1] by simp
  have ct: "contents s3 (inodes s2 ! 1) = ''hello''"
    using contents_frame[OF n3(2)] W(6) by simp
  have dl: "\<forall>p. length (disk s3 p) = BLOCK_SIZE" using invD_wf(6)[OF W(3)] by (simp add: n3)
  have "0 \<le> (1::int)" "(1::int) < int NUM_INODES" by simp_all
  note fs = fread_spec[OF this, where s = s3 and len = 2 and buf = "''......''",
      unfolded Let_def, THEN conjunct2, THEN mp]
  have "sfs_fread s3 1 ''......'' 2 =
      Some (int (min (nat 2) (isize (inodes s3 ! nat (inode (fdt s3 ! nat 1)))
                - rwptr (fdt s3 ! nat 1))),
            take (min (nat 2) (isize (inodes s3 ! nat (inode (fdt s3 ! nat 1)))
                - rwptr (fdt s3 ! nat 1)))
              (drop (rwptr (fdt s3 ! nat 1))
                (contents s3 (inodes s3 ! nat (inode (fdt s3 ! nat 1)))))
            @ drop (min (nat 2) (isize (inodes s3 ! nat (inode (fdt s3 ! nat 1)))
                - rwptr (fdt s3 ! nat 1))) ''......'',
            s3\<lparr>fdt := (fdt s3)[nat 1 := (fdt s3 ! nat 1)\<lparr>rwptr := rwptr (fdt s3 ! nat 1)
               + min (nat 2) (isize (inodes s3 ! nat (inode (fdt s3 ! nat 1)))
                - rwptr (fdt s3 ! nat 1))\<rparr>]\<rparr>)"
    by (rule fs) (use f3 n3 nh dl W(5) in simp)
  then have "sfs_fread s3 1 ''......'' 2 = Some (2, ''ll....'',
       s3\<lparr>fdt := (fdt s3)[1 := \<lparr>inode = 1, rwptr = 4\<rparr>]\<rparr>)"
    using f3 n3 W(5) ct by simp
  with W(1,2) k show ?thesis by blast
qed

text \<open>
  C5, with the bound of the code. In a state that satisfies the invariant,
  \<open>sfs_fseek\<close> sets the pointer of the descriptor to \<open>loc\<close> and returns 0 exactly when
  \<open>0 < fileID < NUM_INODES\<close>, the descriptor is bound to a file,
  \<open>0 \<le> loc \<le> size\<close> and \<open>loc < MAX_DATA_BLOCKS_PER_FILE * BLOCK_SIZE\<close> (269 blocks, one
  more than the largest size); in every other case it returns \<open>-1\<close> and changes nothing.
\<close>

theorem fseek_spec:
  assumes "sfs_inv s"
  shows "sfs_fseek s fd loc =
     (if 0 < fd \<and> fd < int NUM_INODES \<and> 0 < inode (fdt s ! nat fd)
         \<and> 0 \<le> loc \<and> loc \<le> int (isize (inodes s ! nat (inode (fdt s ! nat fd))))
         \<and> loc < int (MAX_DATA_BLOCKS_PER_FILE * BLOCK_SIZE)
      then Some (0, s\<lparr>fdt := (fdt s)[nat fd := (fdt s ! nat fd)\<lparr>rwptr := nat loc\<rparr>]\<rparr>)
      else Some (- 1, s))"
proof (cases "0 < fd \<and> fd < int NUM_INODES")
  case False
  then show ?thesis by (auto simp: sfs_fseek_def)
next
  case True
  then have "0 < nat fd" "nat fd < 128" by auto
  from invD_fdt(2)[OF assms this]
  have "- 1 \<le> inode (fdt s ! nat fd) \<and> inode (fdt s ! nat fd) < int NUM_INODES" by auto
  then show ?thesis using True
    by (simp add: sfs_fseek_def Let_def) linarith
qed

theorem fseek_spec_witness:
  "\<exists>s1. sfs_fopen fresh ''f'' = (1, s1)
     \<and> sfs_fseek s1 1 0 = Some (0, s1\<lparr>fdt := (fdt s1)[1 := (fdt s1 ! 1)\<lparr>rwptr := 0\<rparr>]\<rparr>)
     \<and> sfs_fseek s1 1 1 = Some (- 1, s1)"
proof -
  from opened_fresh[OF name_f(1,2)] obtain s1 where
    S: "sfs_fopen fresh ''f'' = (1, s1)" "sfs_inv s1"
      "fdt s1 = (fdt fresh)[1 := \<lparr>inode = 1, rwptr = 0\<rparr>]"
      "inodes s1 = (inodes fresh)[1 := \<lparr>mode = 1, link_cnt = 1, isize = 0,
          direct = replicate 12 0, indirect = 0\<rparr>]"
    by blast
  note wf = invD_wf[OF sfs_inv_fresh]
  have f1: "fdt s1 ! 1 = \<lparr>inode = 1, rwptr = 0\<rparr>" using wf(2) by (simp add: S(3))
  have n1: "isize (inodes s1 ! 1) = 0" using wf(1) by (simp add: S(4))
  have "sfs_fseek s1 1 0 = Some (0, s1\<lparr>fdt := (fdt s1)[1 := (fdt s1 ! 1)\<lparr>rwptr := 0\<rparr>]\<rparr>)"
    using fseek_spec[OF S(2), of 1 0] f1 n1 by simp
  moreover have "sfs_fseek s1 1 1 = Some (- 1, s1)"
    using fseek_spec[OF S(2), of 1 1] f1 n1 by simp
  ultimately show ?thesis using S(1) by blast
qed

text \<open>
  The bound \<open>loc < MAX_FILE_BYTES\<close> is not the one of the code: on a file of
  \<open>MAX_FILE_BYTES = 274432\<close> bytes, \<open>seek(fd, 274432)\<close> returns 0 and moves the pointer.
\<close>

lemma seek_at_largest_size:
  assumes "length B = 274432"
  shows "\<exists>s1 s2 s3. sfs_fopen fresh ''f'' = (1, s1)
     \<and> sfs_fwrite s1 1 B 274432 = Some (274432, s2)
     \<and> isize (inodes s2 ! 1) = 274432
     \<and> sfs_fseek s2 1 274432 = Some (0, s3) \<and> rwptr (fdt s3 ! 1) = 274432
     \<and> \<not> (274432 < int MAX_FILE_BYTES)"
proof -
  have B: "0 < length B" "length B \<le> 274432" using assms by simp_all
  from written_fresh[OF name_f(1,2) B] obtain s1 s2 where
    W: "sfs_fopen fresh ''f'' = (1, s1)"
      "sfs_fwrite s1 1 B 274432 = Some (274432, s2)" "sfs_inv s2"
      "fdt s2 = (fdt fresh)[1 := \<lparr>inode = 1, rwptr = 274432\<rparr>]"
      "isize (inodes s2 ! 1) = 274432"
    using assms by auto
  note wf = invD_wf[OF sfs_inv_fresh]
  have f2: "fdt s2 ! 1 = \<lparr>inode = 1, rwptr = 274432\<rparr>" using wf(2) by (simp add: W(4))
  define s3 where "s3 = s2\<lparr>fdt := (fdt s2)[1 := (fdt s2 ! 1)\<lparr>rwptr := 274432\<rparr>]\<rparr>"
  have k: "sfs_fseek s2 1 274432 = Some (0, s3)"
    using f2 W(5) by (simp add: sfs_fseek_def Let_def s3_def)
  have "rwptr (fdt s3 ! 1) = 274432" using wf(2) by (simp add: s3_def W(4))
  with W(1,2,5) k show ?thesis by auto
qed

theorem fseek_at_max_file_bytes:
  "\<exists>s1 s2 s3. sfs_fopen fresh ''f'' = (1, s1)
     \<and> sfs_fwrite s1 1 (replicate 274432 (CHR ''x'')) 274432 = Some (274432, s2)
     \<and> isize (inodes s2 ! 1) = 274432
     \<and> sfs_fseek s2 1 274432 = Some (0, s3) \<and> rwptr (fdt s3 ! 1) = 274432
     \<and> \<not> (274432 < int MAX_FILE_BYTES)"
  by (rule seek_at_largest_size) (rule length_replicate)

section \<open>A name that also matches an inactive directory slot\<close>

lemma remove_scan_nomatch:
  "\<forall>i\<in>set is. names (root s ! i) \<noteq> cstr file \<Longrightarrow> remove_scan file (ino, s) is = (ino, s)"
  by (induction "is") simp_all

lemma remove_direct_zero:
  assumes "ino < length (inodes s)"
    and "\<forall>i\<in>set is. i < length (direct (inodes s ! ino)) \<and> direct (inodes s ! ino) ! i = 0"
  shows "remove_direct ino s is = Some s"
  using assms(2)
proof (induction "is")
  case Nil
  then show ?case by simp
next
  case (Cons i "is")
  let ?n = "inodes s ! ino"
  have "(direct ?n)[i := 0] = direct ?n" using Cons.prems by (simp add: list_update_same_conv)
  then have "s\<lparr>inodes := (inodes s)[ino := ?n\<lparr>direct := (direct ?n)[i := 0]\<rparr>]\<rparr> = s"
    by simp
  then show ?case using Cons by simp
qed

lemma names_empty_a: "cstr '''' = []" "cstr ''a'' = ''a''" "strlen '''' < 60" "strlen ''a'' < 60"
  by (simp_all add: cstr_def strlen_def)

text \<open>
  The session \<open>mksfs(1); sfs_fopen("a"); sfs_fopen(""); sfs_remove("a")\<close>: the second open
  takes the inactive slot 1 (the first with an empty name), makes it an active entry named
  \<open>""\<close> and binds descriptor 2 to its inode 2; the remove empties slot 0.
\<close>

lemma empty_name_session:
  "\<exists>s1 s2 s3. sfs_fopen fresh ''a'' = (1, s1) \<and> sfs_fopen s1 '''' = (2, s2)
     \<and> sfs_remove s2 ''a'' = Some (1, s3)
     \<and> fdt s3 = (fdt fresh)[2 := \<lparr>inode = 2, rwptr = 0\<rparr>]
     \<and> root s3 = (root fresh)[1 := \<lparr>dmode = 1, names = []\<rparr>]"
proof -
  note wf = invD_wf[OF sfs_inv_fresh]
  define s1 where "s1 = fresh\<lparr>
     fdt := (fdt fresh)[1 := \<lparr>inode = 1, rwptr = 0\<rparr>],
     num_files := 1,
     inodes := (inodes fresh)[1 := \<lparr>mode = 1, link_cnt = 1, isize = 0,
        direct = replicate 12 0, indirect = 0\<rparr>],
     root := (root fresh)[0 := \<lparr>dmode = 1, names = cstr ''a''\<rparr>]\<rparr>"
  have o1: "sfs_fopen fresh ''a'' = (1, s1)"
    unfolding s1_def by (rule fopen_fresh) (simp_all add: names_empty_a)
  have F1: "fdt s1 = (fdt fresh)[1 := \<lparr>inode = 1, rwptr = 0\<rparr>]"
    and R1: "root s1 = (root fresh)[0 := \<lparr>dmode = 1, names = ''a''\<rparr>]"
    and I1: "inodes s1 = (inodes fresh)[1 := \<lparr>mode = 1, link_cnt = 1, isize = 0,
        direct = replicate 12 0, indirect = 0\<rparr>]"
    and N1: "num_files s1 = 1"
    by (simp_all add: s1_def names_empty_a)
  have f1: "fdt s1 ! j = (if j = 1 then \<lparr>inode = 1, rwptr = 0\<rparr>
      else \<lparr>inode = (if j = 0 then 0 else - 1), rwptr = 0\<rparr>)" if "j < 128" for j
    using that wf(2) by (simp add: F1 nth_list_update fresh_fd)
  have r1: "root s1 ! i = (if i = 0 then \<lparr>dmode = 1, names = ''a''\<rparr>
      else \<lparr>dmode = 0, names = []\<rparr>)" if "i < 127" for i
    using that by (simp add: R1 nth_list_update fresh_fields(3))
  have n1: "inodes s1 ! i = (if i = 1 then \<lparr>mode = 1, link_cnt = 1, isize = 0,
        direct = replicate 12 0, indirect = 0\<rparr> else
        \<lparr>mode = 0, link_cnt = (if i = 0 then 1 else 0), isize = 0, direct = replicate 12 0,
          indirect = 0\<rparr>)" if "i < 128" for i
    using that wf(1) by (simp add: I1 nth_list_update fresh_inode)
  have g1: "sfs_getfilesize s1 '''' = 0"
  proof -
    have "sfs_getfilesize s1 '''' = to_int32 (int (isize (inodes s1 ! (126 + 1))))"
      by (rule getfilesize_last) (simp_all add: names_empty_a r1)
    then show ?thesis by (simp add: n1 to_int32_id)
  qed
  define s2 where "s2 = s1\<lparr>
       fdt := (fdt s1)[2 := \<lparr>inode = 2, rwptr = 0\<rparr>],
       root := (root s1)[1 := \<lparr>dmode = 1, names = []\<rparr>],
       inodes := (inodes s1)[2 := \<lparr>mode = 0, link_cnt = 1, isize = 0,
          direct = replicate 12 0, indirect = 0\<rparr>]\<rparr>"
  have "sfs_fopen s1 '''' = (int 2, s1\<lparr>
       fdt := (fdt s1)[2 := \<lparr>inode = int 1 + 1, rwptr = nat (sfs_getfilesize s1 '''' mod 2 ^ 64)\<rparr>],
       root := (root s1)[1 := (root s1 ! 1)\<lparr>dmode := 1\<rparr>],
       inodes := (inodes s1)[1 + 1 := (inodes s1 ! (1 + 1))\<lparr>link_cnt := 1\<rparr>]\<rparr>)"
  proof (rule fopen_existing)
    show "find_name s1 '''' [0..<127] = Some 1"
      by (simp add: find_name_upt names_empty_a r1)
    show "inode (fdt s1 ! j) \<noteq> int 1 + 1" if "1 \<le> j" "j < 128" for j
      using that by (simp add: f1)
    show "List.find (\<lambda>j. inode (fdt s1 ! j) = - 1) [1..<128] = Some 2"
    proof -
      have "k = 1" if "1 \<le> k" "k < 2" for k :: nat using that by simp
      then show ?thesis by (auto simp: find_upt_Some_iff f1)
    qed
  qed (simp add: names_empty_a)
  moreover have "(root s1 ! 1)\<lparr>dmode := 1\<rparr> = \<lparr>dmode = 1, names = []\<rparr>"
    using r1[of 1] by simp
  moreover have "(inodes s1 ! (1 + 1))\<lparr>link_cnt := 1\<rparr> = \<lparr>mode = 0, link_cnt = 1, isize = 0,
          direct = replicate 12 0, indirect = 0\<rparr>"
    using n1[of 2] by (simp add: numeral_2_eq_2[symmetric])
  ultimately have o2: "sfs_fopen s1 '''' = (2, s2)"
    by (simp add: g1 s2_def numeral_2_eq_2[symmetric])
  have F2: "fdt s2 = (fdt s1)[2 := \<lparr>inode = 2, rwptr = 0\<rparr>]"
    and R2: "root s2 = (root s1)[1 := \<lparr>dmode = 1, names = []\<rparr>]"
    and I2: "inodes s2 = (inodes s1)[2 := \<lparr>mode = 0, link_cnt = 1, isize = 0,
          direct = replicate 12 0, indirect = 0\<rparr>]"
    and N2: "num_files s2 = 1"
    by (simp_all add: s2_def N1)
  have l1: "length (fdt s1) = 128" "length (root s1) = 127" "length (inodes s1) = 128"
    using wf by (simp_all add: F1 R1 I1)
  define t0 where "t0 = s2\<lparr>root := (root s2)[0 := \<lparr>dmode = 0, names = []\<rparr>]\<rparr>"
  define t where "t = t0\<lparr>fdt := (fdt t0)[1 := \<lparr>inode = - 1, rwptr = 0\<rparr>]\<rparr>"
  have Rt: "root t = (root fresh)[1 := \<lparr>dmode = 1, names = []\<rparr>]"
  proof -
    have "root t = (root fresh)[0 := \<lparr>dmode = 0, names = []\<rparr>, 1 := \<lparr>dmode = 1, names = []\<rparr>]"
      by (simp add: t_def t0_def R2 R1 list_update_swap)
    moreover have "(root fresh)[0 := \<lparr>dmode = 0, names = []\<rparr>] = root fresh"
      by (simp add: fresh_fields(3) list_update_same_conv)
    ultimately show ?thesis by simp
  qed
  have Ft: "fdt t = (fdt fresh)[2 := \<lparr>inode = 2, rwptr = 0\<rparr>]"
  proof -
    have "fdt t = (fdt fresh)[1 := \<lparr>inode = - 1, rwptr = 0\<rparr>, 2 := \<lparr>inode = 2, rwptr = 0\<rparr>]"
      by (simp add: t_def t0_def F2 F1 list_update_swap)
    moreover have "(fdt fresh)[1 := \<lparr>inode = - 1, rwptr = 0\<rparr>] = fdt fresh"
      using wf(2) by (simp add: list_update_same_conv fresh_fd)
    ultimately show ?thesis by simp
  qed
  have It: "inodes t = inodes s2" "disk t = disk s2" "num_files t = 1"
    by (simp_all add: t_def t0_def N2)
  have n2: "inodes s2 ! 1 = \<lparr>mode = 1, link_cnt = 1, isize = 0,
        direct = replicate 12 0, indirect = 0\<rparr>"
    using l1(3) n1[of 1] by (simp add: I2)
  have u0: "[0..<127] = 0 # [1..<127]" by (simp add: upt_conv_Cons)
  have u1: "[1..<128] = 1 # [2..<128]" by (simp add: upt_conv_Cons)
  have rs0: "names (root s2 ! 0) = cstr ''a''"
    using l1(2) r1[of 0] by (simp add: R2 names_empty_a)
  have cf: "close_first t0 (int 0 + 1) [1..<128] = t"
  proof -
    have "fdt t0 ! 1 = \<lparr>inode = 1, rwptr = 0\<rparr>"
      using l1(1) f1[of 1] by (simp add: t0_def F2)
    then show ?thesis
      unfolding u1 by (simp add: sfs_fclose_def t_def)
  qed
  have nm: "\<forall>i\<in>set [1..<127]. names (root t ! i) \<noteq> cstr ''a''"
    by (simp add: Rt names_empty_a fresh_fields(3) nth_list_update)
  have sc: "remove_scan ''a'' (- 1, s2) [0..<127] = (1, t)"
  proof -
    have "remove_scan ''a'' (- 1, s2) [0..<127]
        = remove_scan ''a'' (int 0 + 1, close_first t0 (int 0 + 1) [1..<128]) [1..<127]"
      unfolding u0 using rs0 by (simp add: t0_def del: const_vals)
        (simp add: t0_def)
    also have "\<dots> = remove_scan ''a'' (1, t) [1..<127]" using cf by simp
    also have "\<dots> = (1, t)" using nm by (rule remove_scan_nomatch)
    finally show ?thesis .
  qed
  have nt: "inodes t ! 1 = \<lparr>mode = 1, link_cnt = 1, isize = 0,
        direct = replicate 12 0, indirect = 0\<rparr>"
    using n2 by (simp add: It)
  have rd: "remove_direct 1 t [0..<12] = Some t"
  proof (rule remove_direct_zero)
    show "1 < length (inodes t)" by (simp add: It I2 l1)
    show "\<forall>i\<in>set [0..<12]. i < length (direct (inodes t ! 1)) \<and> direct (inodes t ! 1) ! i = 0"
      unfolding nt by simp
  qed
  have ri: "remove_indirect 1 t = Some t"
    using nt by (simp add: remove_indirect_def)
  define s3 where "s3 = t\<lparr>
      inodes := (inodes t)[1 := (inodes t ! 1)\<lparr>mode := 0, isize := 0, link_cnt := 0\<rparr>],
      num_files := (num_files t + 2 ^ 32 - 1) mod 2 ^ 32\<rparr>"
  have rm: "sfs_remove s2 ''a'' = Some (1, s3)"
    using nt rd ri by (simp add: sfs_remove_def sc s3_def)
  have "fdt s3 = (fdt fresh)[2 := \<lparr>inode = 2, rwptr = 0\<rparr>]"
    "root s3 = (root fresh)[1 := \<lparr>dmode = 1, names = []\<rparr>]"
    by (simp_all add: s3_def Ft Rt)
  with o1 o2 rm show ?thesis by blast
qed

text \<open>
  In the state reached, descriptor 2 references inode 2, the inode of the only active entry,
  which is named \<open>""\<close>; yet \<open>sfs_fopen("")\<close> resolves the name to the inactive slot 0, whose
  inode 1 no descriptor holds, returns descriptor 1 and binds it.
\<close>

theorem fopen_resolves_to_inactive_slot:
  "\<exists>s1 s2 s3 s4. sfs_fopen fresh ''a'' = (1, s1) \<and> sfs_fopen s1 '''' = (2, s2)
     \<and> sfs_remove s2 ''a'' = Some (1, s3)
     \<and> dmode (root s3 ! 1) = 1 \<and> names (root s3 ! 1) = cstr ''''
     \<and> inode (fdt s3 ! 2) = int 1 + 1
     \<and> (\<forall>i<NUM_FILE_INODES. dmode (root s3 ! i) = 1 \<longrightarrow> i = 1)
     \<and> sfs_fopen s3 '''' = (1, s4)
     \<and> inode (fdt s3 ! 1) = - 1 \<and> inode (fdt s4 ! 1) = 1"
proof -
  from empty_name_session obtain s1 s2 s3 where
    S: "sfs_fopen fresh ''a'' = (1, s1)" "sfs_fopen s1 '''' = (2, s2)"
      "sfs_remove s2 ''a'' = Some (1, s3)"
      "fdt s3 = (fdt fresh)[2 := \<lparr>inode = 2, rwptr = 0\<rparr>]"
      "root s3 = (root fresh)[1 := \<lparr>dmode = 1, names = []\<rparr>]"
    by blast
  note wf = invD_wf[OF sfs_inv_fresh]
  have f3: "fdt s3 ! j = (if j = 2 then \<lparr>inode = 2, rwptr = 0\<rparr>
      else \<lparr>inode = (if j = 0 then 0 else - 1), rwptr = 0\<rparr>)" if "j < 128" for j
    using that wf(2) by (simp add: S(4) nth_list_update fresh_fd)
  have r3: "root s3 ! i = (if i = 1 then \<lparr>dmode = 1, names = []\<rparr>
      else \<lparr>dmode = 0, names = []\<rparr>)" if "i < 127" for i
    using that by (simp add: S(5) nth_list_update fresh_fields(3))
  define s4 where "s4 = s3\<lparr>
       fdt := (fdt s3)[1 := \<lparr>inode = int 0 + 1, rwptr = nat (sfs_getfilesize s3 '''' mod 2 ^ 64)\<rparr>],
       root := (root s3)[0 := (root s3 ! 0)\<lparr>dmode := 1\<rparr>],
       inodes := (inodes s3)[0 + 1 := (inodes s3 ! (0 + 1))\<lparr>link_cnt := 1\<rparr>]\<rparr>"
  have "sfs_fopen s3 '''' = (int 1, s4)"
    unfolding s4_def
  proof (rule fopen_existing)
    show "find_name s3 '''' [0..<127] = Some 0"
      by (simp add: find_name_upt names_empty_a r3)
    show "inode (fdt s3 ! j) \<noteq> int 0 + 1" if "1 \<le> j" "j < 128" for j
      using that by (simp add: f3)
    show "List.find (\<lambda>j. inode (fdt s3 ! j) = - 1) [1..<128] = Some 1"
      by (simp add: find_upt_Some_iff f3)
  qed (simp add: names_empty_a)
  then have o: "sfs_fopen s3 '''' = (1, s4)" by simp
  have "inode (fdt s4 ! 1) = 1"
    using wf(2) by (simp add: s4_def S(4))
  moreover have "\<forall>i<NUM_FILE_INODES. dmode (root s3 ! i) = 1 \<longrightarrow> i = 1"
    by (simp add: r3)
  moreover have "dmode (root s3 ! 1) = 1" "names (root s3 ! 1) = cstr ''''"
    "inode (fdt s3 ! 2) = int 1 + 1" "inode (fdt s3 ! 1) = - 1"
    by (simp_all add: r3 f3 names_empty_a)
  ultimately show ?thesis using S(1-3) o by blast
qed

section \<open>A second format in one process\<close>

lemma mksfs_fresh_fields:
  "inodes (mksfs_fresh s)
     = map (\<lambda>i. (inodes s ! i)\<lparr>link_cnt := (if i = 0 then 1 else 0)\<rparr>) [0..<128]"
  "fdt (mksfs_fresh s)
     = map (\<lambda>i. if i = 0 then \<lparr>inode = 0, rwptr = 0\<rparr> else (fdt s ! i)\<lparr>inode := - 1\<rparr>) [0..<128]"
  "root (mksfs_fresh s) = replicate 127 \<lparr>dmode = 0, names = []\<rparr>"
  "num_files (mksfs_fresh s) = 0"
  by (simp_all add: mksfs_fresh_def)

lemma name_b: "cstr ''b'' \<noteq> []" "strlen ''b'' < 60" "cstr ''a'' \<noteq> []" "strlen ''a'' < 60"
  by (simp_all add: cstr_def strlen_def)

text \<open>The first file that is created after \<open>mksfs(1)\<close> gets inode 1, whatever the tables held
  before the format; the format has reset the link count of the inode, not its pointers.\<close>

lemma fopen_after_format:
  assumes "cstr name \<noteq> []" "strlen name < 60"
  shows "\<exists>s'. sfs_fopen (mksfs_fresh s) name = (1, s')
     \<and> inodes s' ! 1 = (inodes s ! 1)\<lparr>link_cnt := 1, mode := 1, isize := 0\<rparr>
     \<and> disk s' = fresh_disk"
proof -
  let ?m = "mksfs_fresh s"
  have nf: "find_name ?m name [0..<127] = None"
    using assms(1) by (auto simp: find_name_None_iff mksfs_fresh_fields)
  have u: "[1..<128] = 1 # [2..<128]"
    by (simp add: upt_conv_Cons)
  have i1: "inodes ?m ! 1 = (inodes s ! 1)\<lparr>link_cnt := 0\<rparr>"
    and f1: "fdt ?m ! 1 = (fdt s ! 1)\<lparr>inode := - 1\<rparr>"
    by (simp_all add: mksfs_fresh_fields)
  have ff: "first_free_fd ?m [1..<128] = Some 1"
    unfolding u using f1 by simp
  define s' where "s' = ?m\<lparr>
                fdt := (fdt ?m)[1 := \<lparr>inode = int 1, rwptr = 0\<rparr>],
                num_files := (num_files ?m + 1) mod 2 ^ 32,
                inodes := (inodes ?m)[1 := (inodes ?m ! 1)\<lparr>link_cnt := 1, mode := 1, isize := 0\<rparr>],
                root := (root ?m)[1 - 1 := \<lparr>dmode = 1, names = cstr name\<rparr>]\<rparr>"
  have "fopen_new ?m name [1..<128] = (int 1, s')"
    unfolding s'_def using i1 ff by (subst u) simp
  then have o: "sfs_fopen ?m name = (1, s')"
    using assms(2) nf by (simp add: sfs_fopen_def)
  have "inodes s' ! 1 = (inodes ?m ! 1)\<lparr>link_cnt := 1, mode := 1, isize := 0\<rparr>"
    by (simp add: s'_def mksfs_fresh_fields(1))
  then have "inodes s' ! 1 = (inodes s ! 1)\<lparr>link_cnt := 1, mode := 1, isize := 0\<rparr>"
    using i1 by simp
  moreover have "disk s' = fresh_disk" by (simp add: s'_def mksfs_fresh_def)
  ultimately show ?thesis using o by blast
qed

text \<open>
  C3. The session \<open>mksfs(1); fd = sfs_fopen("a"); sfs_fwrite(fd, "x", 1); mksfs(1);
  sfs_fopen("b")\<close>. The second format resets \<open>link_cnt\<close> of every inode and nothing else of
  it (the spec has it zero all inodes), so the file \<open>"b"\<close>, which gets inode 1, is allocated
  with size 0 while its first direct pointer still references the block of \<open>"a"\<close>: the
  number of referenced data blocks is not \<open>size / BLOCK_SIZE\<close> rounded up.
\<close>

theorem stale_pointers_after_second_format:
  "\<exists>s1 s2 s3. sfs_fopen fresh ''a'' = (1, s1) \<and> sfs_fwrite s1 1 ''x'' 1 = Some (1, s2)
     \<and> sfs_fopen (mksfs_fresh s2) ''b'' = (1, s3)
     \<and> link_cnt (inodes s3 ! 1) = 1 \<and> isize (inodes s3 ! 1) = 0
     \<and> 0 < direct (inodes s3 ! 1) ! 0
     \<and> data_blocks s3 (inodes s3 ! 1) \<noteq> nblocks (isize (inodes s3 ! 1))"
proof -
  define B where "B = ''x''"
  have lB: "length B = 1" by (simp add: B_def)
  have B: "0 < length B" "length B \<le> 274432" by (simp_all add: lB)
  from written_fresh[OF name_b(3,4) B] obtain s1 s2 where
    W0: "sfs_fopen fresh ''a'' = (1, s1)"
      "sfs_fwrite s1 1 B 1 = Some (1, s2)" "sfs_inv s2"
      "isize (inodes s2 ! 1) = 1"
    unfolding lB by auto
  note W = W0[unfolded B_def]
  from fopen_after_format[OF name_b(1,2), of s2] obtain s3 where
    S: "sfs_fopen (mksfs_fresh s2) ''b'' = (1, s3)"
      "inodes s3 ! 1 = (inodes s2 ! 1)\<lparr>link_cnt := 1, mode := 1, isize := 0\<rparr>"
    by blast
  have "0 < blk s2 (inodes s2 ! 1) 0"
    using invD_file(2)[OF W(3), of 1 0] W(4) by simp
  then have d: "0 < direct (inodes s2 ! 1) ! 0" by (simp add: blk_def)
  have l: "length (direct (inodes s2 ! 1)) = 12" using invD_wf(5)[OF W(3), of 1] by simp
  have d3: "direct (inodes s3 ! 1) = direct (inodes s2 ! 1)" "isize (inodes s3 ! 1) = 0"
    "link_cnt (inodes s3 ! 1) = 1"
    using S(2) by simp_all
  have "direct (inodes s2 ! 1) ! 0 \<in> set (direct (inodes s2 ! 1))"
    using l by (intro nth_mem) simp
  then have "filter (\<lambda>p. p > 0) (direct (inodes s3 ! 1) @ ptrs_of s3 (inodes s3 ! 1)) \<noteq> []"
    using d d3(1) by (auto simp: filter_empty_conv)
  then have "data_blocks s3 (inodes s3 ! 1) \<noteq> 0" by (simp add: data_blocks_def)
  then have "data_blocks s3 (inodes s3 ! 1) \<noteq> nblocks (isize (inodes s3 ! 1))"
    using d3(2) by (simp add: nblocks_0)
  with W(1,2) S(1) d d3 show ?thesis by auto
qed

section \<open>Remove and the index block\<close>

lemma free_block_ok:
  assumes "18 \<le> p" "p < 2153"
  shows "free_block s p = Some (s\<lparr>free_blocks := (free_blocks s)[p - 18 := 0],
                    disk := (disk s)(p := zero_block)\<rparr>)"
proof -
  have "to_int32 (int p - 18) = int p - 18" using assms by (intro to_int32_id) simp_all
  moreover have "nat (int p - 18) = p - 18" by simp
  ultimately show ?thesis using assms by (simp add: free_block_def Let_def)
qed

text \<open>Freeing the blocks of a list of pointers leaves the bitmap byte and the contents of
  every other block \<open>q\<close> of the data region as they are.\<close>

lemma remove_ptrs_keep:
  assumes "\<forall>i\<in>set is. 0 < pb ! i \<longrightarrow> 18 \<le> pb ! i \<and> pb ! i < 2153 \<and> pb ! i \<noteq> q"
    and "18 \<le> q"
  shows "\<exists>s'. remove_ptrs pb s is = Some s'
     \<and> free_blocks s' ! (q - 18) = free_blocks s ! (q - 18) \<and> disk s' q = disk s q
     \<and> inodes s' = inodes s \<and> fdt s' = fdt s \<and> root s' = root s"
  using assms(1)
proof (induction "is" arbitrary: s)
  case Nil
  then show ?case by simp
next
  case (Cons i "is")
  show ?case
  proof (cases "0 < pb ! i")
    case False
    with Cons show ?thesis by simp
  next
    case True
    with Cons.prems have p: "18 \<le> pb ! i" "pb ! i < 2153" "pb ! i \<noteq> q" by simp_all
    define s1 where "s1 = s\<lparr>free_blocks := (free_blocks s)[pb ! i - 18 := 0],
                    disk := (disk s)(pb ! i := zero_block)\<rparr>"
    have fb: "free_block s (pb ! i) = Some s1"
      unfolding s1_def using p(1,2) by (rule free_block_ok)
    have ne: "pb ! i - 18 \<noteq> q - 18" using p(1,3) assms(2) by simp
    from Cons.IH[of s1] Cons.prems obtain s' where
      I: "remove_ptrs pb s1 is = Some s'"
        "free_blocks s' ! (q - 18) = free_blocks s1 ! (q - 18)" "disk s' q = disk s1 q"
        "inodes s' = inodes s1" "fdt s' = fdt s1" "root s' = root s1"
      by auto
    have "free_blocks s1 ! (q - 18) = free_blocks s ! (q - 18)" "disk s1 q = disk s q"
      "inodes s1 = inodes s" "fdt s1 = fdt s" "root s1 = root s"
      using ne p(3) by (simp_all add: s1_def)
    with I True fb show ?thesis by simp
  qed
qed

lemma remove_direct_keep:
  assumes "\<forall>i\<in>set is. 0 < direct (inodes s ! ino) ! i \<longrightarrow>
       18 \<le> direct (inodes s ! ino) ! i \<and> direct (inodes s ! ino) ! i < 2153
       \<and> direct (inodes s ! ino) ! i \<noteq> q"
    and "18 \<le> q" and "ino < length (inodes s)"
  shows "\<exists>s'. remove_direct ino s is = Some s'
     \<and> free_blocks s' ! (q - 18) = free_blocks s ! (q - 18) \<and> disk s' q = disk s q
     \<and> indirect (inodes s' ! ino) = indirect (inodes s ! ino)
     \<and> link_cnt (inodes s' ! ino) = link_cnt (inodes s ! ino)
     \<and> length (inodes s') = length (inodes s) \<and> fdt s' = fdt s \<and> root s' = root s"
  using assms(1,3)
proof (induction "is" arbitrary: s)
  case Nil
  then show ?case by simp
next
  case (Cons i "is")
  let ?n = "inodes s ! ino"
  let ?p = "direct ?n ! i"
  define s1 where "s1 = (if 0 < ?p then s\<lparr>free_blocks := (free_blocks s)[?p - 18 := 0],
                    disk := (disk s)(?p := zero_block)\<rparr> else s)"
  have fb: "(if 0 < ?p then free_block s ?p else Some s) = Some s1"
    using Cons.prems(1) by (simp add: s1_def free_block_ok)
  have k1: "free_blocks s1 ! (q - 18) = free_blocks s ! (q - 18)" "disk s1 q = disk s q"
    "inodes s1 = inodes s" "fdt s1 = fdt s" "root s1 = root s"
    using Cons.prems(1) assms(2) by (auto simp: s1_def)
  define s2 where "s2 = s1\<lparr>inodes := (inodes s1)[ino := (inodes s1 ! ino)\<lparr>direct :=
               (direct (inodes s1 ! ino))[i := 0]\<rparr>]\<rparr>"
  have n2: "inodes s2 ! ino = ?n\<lparr>direct := (direct ?n)[i := 0]\<rparr>"
    using Cons.prems(2) by (simp add: s2_def k1)
  have k2: "free_blocks s2 = free_blocks s1" "disk s2 = disk s1" "fdt s2 = fdt s1"
    "root s2 = root s1" "length (inodes s2) = length (inodes s)"
    by (simp_all add: s2_def k1)
  have pre: "\<forall>j\<in>set is. 0 < direct (inodes s2 ! ino) ! j \<longrightarrow>
       18 \<le> direct (inodes s2 ! ino) ! j \<and> direct (inodes s2 ! ino) ! j < 2153
       \<and> direct (inodes s2 ! ino) ! j \<noteq> q"
  proof (intro ballI impI)
    fix j assume j: "j \<in> set is" "0 < direct (inodes s2 ! ino) ! j"
    have "direct (inodes s2 ! ino) ! j = direct ?n ! j"
    proof (cases "i = j")
      case False
      then show ?thesis by (simp add: n2)
    next
      case True
      show ?thesis
      proof (cases "i < length (direct ?n)")
        case True
        with \<open>i = j\<close> j(2) show ?thesis by (simp add: n2)
      next
        case False
        then show ?thesis by (simp add: n2 list_update_beyond)
      qed
    qed
    with j Cons.prems(1) show "18 \<le> direct (inodes s2 ! ino) ! j
       \<and> direct (inodes s2 ! ino) ! j < 2153 \<and> direct (inodes s2 ! ino) ! j \<noteq> q"
      by simp
  qed
  have "ino < length (inodes s2)" using Cons.prems(2) k2 by simp
  from Cons.IH[OF pre this] obtain s' where
    I: "remove_direct ino s2 is = Some s'"
      "free_blocks s' ! (q - 18) = free_blocks s2 ! (q - 18)" "disk s' q = disk s2 q"
      "indirect (inodes s' ! ino) = indirect (inodes s2 ! ino)"
      "link_cnt (inodes s' ! ino) = link_cnt (inodes s2 ! ino)"
      "length (inodes s') = length (inodes s2)" "fdt s' = fdt s2" "root s' = root s2"
    by auto
  have "remove_direct ino s (i # is) = remove_direct ino s2 is"
    using fb by (simp add: s2_def Let_def)
  with I k1 k2 n2 show ?case by simp
qed

text \<open>
  The first file of a fresh file system, written past its twelve direct blocks, is removed:
  the inode loses its index block, but the byte of the index block in the bitmap stays 1.
\<close>

lemma remove_keeps_index_byte:
  assumes inv: "sfs_inv s2" and nm: "cstr name \<noteq> []"
    and f: "fdt s2 = (fdt fresh)[1 := \<lparr>inode = 1, rwptr = r\<rparr>]"
    and d: "root s2 = (root fresh)[0 := \<lparr>dmode = 1, names = cstr name\<rparr>]"
    and l: "link_cnt (inodes s2 ! 1) = 1"
    and q: "indirect (inodes s2 ! 1) = q" "0 < q"
  shows "\<exists>s3. sfs_remove s2 name = Some (1, s3) \<and> indirect (inodes s3 ! 1) = 0
     \<and> link_cnt (inodes s3 ! 1) = 0 \<and> free_blocks s3 ! (q - 18) = 1
     \<and> free_blocks s2 ! (q - 18) = 1"
proof -
  note wf = invD_wf[OF sfs_inv_fresh] and wf2 = invD_wf[OF inv]
  let ?n = "inodes s2 ! 1"
  have qr: "18 \<le> q" "q < 2153" "free_blocks s2 ! (q - 18) = 1"
    using invD_idx[OF inv, of 1] q by simp_all
  define t0 where "t0 = s2\<lparr>root := (root s2)[0 := \<lparr>dmode = 0, names = []\<rparr>]\<rparr>"
  define t where "t = t0\<lparr>fdt := (fdt t0)[1 := \<lparr>inode = - 1, rwptr = 0\<rparr>]\<rparr>"
  have Rt: "root t = root fresh"
  proof -
    have "root t = (root fresh)[0 := \<lparr>dmode = 0, names = []\<rparr>]"
      by (simp add: t_def t0_def d)
    then show ?thesis by (simp add: fresh_fields(3) list_update_same_conv)
  qed
  have kt: "inodes t = inodes s2" "disk t = disk s2" "free_blocks t = free_blocks s2"
    "num_files t = num_files s2"
    by (simp_all add: t_def t0_def)
  have u0: "[0..<127] = 0 # [1..<127]" by (simp add: upt_conv_Cons)
  have u1: "[1..<128] = 1 # [2..<128]" by (simp add: upt_conv_Cons)
  have rs0: "names (root s2 ! 0) = cstr name" using wf(3) by (simp add: d)
  have cf: "close_first t0 (int 0 + 1) [1..<128] = t"
  proof -
    have "fdt t0 ! 1 = \<lparr>inode = 1, rwptr = r\<rparr>"
      using wf(2) by (simp add: t0_def f)
    then show ?thesis
      unfolding u1 by (simp add: sfs_fclose_def t_def)
  qed
  have nmt: "\<forall>i\<in>set [1..<127]. names (root t ! i) \<noteq> cstr name"
    using nm by (simp add: Rt fresh_fields(3))
  have sc: "remove_scan name (- 1, s2) [0..<127] = (1, t)"
  proof -
    have "remove_scan name (- 1, s2) [0..<127]
        = remove_scan name (int 0 + 1, close_first t0 (int 0 + 1) [1..<128]) [1..<127]"
      unfolding u0 using rs0 by (simp add: t0_def del: const_vals)
        (simp add: t0_def)
    also have "\<dots> = remove_scan name (1, t) [1..<127]" using cf by simp
    also have "\<dots> = (1, t)" using nmt by (rule remove_scan_nomatch)
    finally show ?thesis .
  qed
  have dp: "\<forall>i\<in>set [0..<12]. 0 < direct (inodes t ! 1) ! i \<longrightarrow>
       18 \<le> direct (inodes t ! 1) ! i \<and> direct (inodes t ! 1) ! i < 2153
       \<and> direct (inodes t ! 1) ! i \<noteq> q"
  proof (intro ballI impI)
    fix i assume i: "i \<in> set [0..<12]" "0 < direct (inodes t ! 1) ! i"
    then have b: "blk s2 ?n i = direct (inodes t ! 1) ! i" "i < 268" "0 < blk s2 ?n i"
      by (simp_all add: blk_def kt)
    from invD_blk[OF inv _ _ b(2,3), of ] invD_blk_idx[OF inv _ _ _ _ b(2,3), of 1] q(1) b(1)
    show "18 \<le> direct (inodes t ! 1) ! i \<and> direct (inodes t ! 1) ! i < 2153
       \<and> direct (inodes t ! 1) ! i \<noteq> q"
      by simp
  qed
  have "1 < length (inodes t)" using wf2(1) by (simp add: kt)
  from remove_direct_keep[OF dp qr(1) this] obtain a where
    A: "remove_direct 1 t [0..<12] = Some a"
      "free_blocks a ! (q - 18) = free_blocks t ! (q - 18)" "disk a q = disk t q"
      "indirect (inodes a ! 1) = indirect (inodes t ! 1)"
      "link_cnt (inodes a ! 1) = link_cnt (inodes t ! 1)"
      "length (inodes a) = length (inodes t)"
    by auto
  define pb where "pb = load_ptrs (disk a q)"
  have pbe: "pb = ptrs_of s2 ?n" using q A(3) by (simp add: pb_def ptrs_of_def kt)
  have pp: "\<forall>i\<in>set [0..<256]. 0 < pb ! i \<longrightarrow> 18 \<le> pb ! i \<and> pb ! i < 2153 \<and> pb ! i \<noteq> q"
  proof (intro ballI impI)
    fix i assume i: "i \<in> set [0..<256]" "0 < pb ! i"
    then have b: "blk s2 ?n (i + 12) = pb ! i" "i + 12 < 268" "0 < blk s2 ?n (i + 12)"
      by (simp_all add: blk_def pbe)
    from invD_blk[OF inv _ _ b(2,3)] invD_blk_idx[OF inv _ _ _ _ b(2,3), of 1] q(1) b(1)
    show "18 \<le> pb ! i \<and> pb ! i < 2153 \<and> pb ! i \<noteq> q"
      by simp
  qed
  from remove_ptrs_keep[OF pp qr(1), of a] obtain c where
    C: "remove_ptrs pb a [0..<256] = Some c"
      "free_blocks c ! (q - 18) = free_blocks a ! (q - 18)" "inodes c = inodes a"
    by auto
  define e where "e = c\<lparr>disk := (disk c)(q := zero_block),
                      inodes := (inodes c)[1 := (inodes c ! 1)\<lparr>indirect := 0\<rparr>]\<rparr>"
  have ia: "indirect (inodes a ! 1) = q" using A(4) q(1) by (simp add: kt)
  have ri: "remove_indirect 1 a = Some e"
    using ia q(2) C(1) by (simp add: remove_indirect_def Let_def pb_def e_def)
  define s3 where "s3 = e\<lparr>
      inodes := (inodes e)[1 := (inodes e ! 1)\<lparr>mode := 0, isize := 0, link_cnt := 0\<rparr>],
      num_files := (num_files e + 2 ^ 32 - 1) mod 2 ^ 32\<rparr>"
  have lt: "link_cnt (inodes t ! 1) = 1" using l by (simp add: kt)
  have rm: "sfs_remove s2 name = Some (1, s3)"
    using lt A(1) ri by (simp add: sfs_remove_def sc s3_def)
  have le: "1 < length (inodes c)" using A(6) C(3) wf2(1) by (simp add: kt)
  have "indirect (inodes s3 ! 1) = 0" "link_cnt (inodes s3 ! 1) = 0"
    using le by (simp_all add: s3_def e_def)
  moreover have "free_blocks s3 ! (q - 18) = 1"
    using C(2) A(2) qr(3) by (simp add: s3_def e_def kt)
  ultimately show ?thesis using rm qr(3) by blast
qed

text \<open>
  C2. The session \<open>mksfs(1); fd = sfs_fopen("f"); sfs_fwrite(fd, B, 13312);
  sfs_remove("f")\<close> with 13 blocks of data: the write gives the inode an index block \<open>q\<close>,
  marked in the bitmap; \<open>sfs_remove\<close> returns the inode number and sets
  \<open>inode.indirect\<close> to 0, but the bitmap byte of \<open>q\<close> is still 1 afterwards, where the
  property has it cleared.
\<close>

theorem remove_leaves_index_block_marked:
  "\<exists>s1 s2 s3 q. sfs_fopen fresh ''f'' = (1, s1)
     \<and> sfs_fwrite s1 1 (replicate 13312 (CHR ''x'')) 13312 = Some (13312, s2)
     \<and> indirect (inodes s2 ! 1) = q \<and> 0 < q \<and> free_blocks s2 ! (q - DATA_BLOCKS_OFFSET) = 1
     \<and> sfs_remove s2 ''f'' = Some (1, s3)
     \<and> link_cnt (inodes s3 ! 1) = 0 \<and> indirect (inodes s3 ! 1) = 0
     \<and> free_blocks s3 ! (q - DATA_BLOCKS_OFFSET) = 1"
proof -
  define B where "B = replicate 13312 (CHR ''x'')"
  have lB: "length B = 13312" by (simp only: B_def length_replicate)
  have B: "0 < length B" "length B \<le> 274432" by (simp_all add: lB)
  from written_fresh[OF name_f(1,2) B] obtain s1 s2 where
    W: "sfs_fopen fresh ''f'' = (1, s1)"
      "sfs_fwrite s1 1 B 13312 = Some (13312, s2)" "sfs_inv s2"
      "fdt s2 = (fdt fresh)[1 := \<lparr>inode = 1, rwptr = 13312\<rparr>]"
      "root s2 = (root fresh)[0 := \<lparr>dmode = 1, names = cstr ''f''\<rparr>]"
      "isize (inodes s2 ! 1) = 13312" "link_cnt (inodes s2 ! 1) = 1"
    unfolding lB by auto
  define q where "q = indirect (inodes s2 ! 1)"
  have "0 < blk s2 (inodes s2 ! 1) 12"
    using invD_file(2)[OF W(3), of 1 12] W(6) by simp
  then have q0: "0 < q"
    by (cases "q = 0") (simp_all add: blk_def ptrs_of_def q_def)
  from remove_keeps_index_byte[OF W(3) name_f(1) W(4,5,7) q_def[symmetric] q0]
  obtain s3 where "sfs_remove s2 ''f'' = Some (1, s3)" "indirect (inodes s3 ! 1) = 0"
     "link_cnt (inodes s3 ! 1) = 0" "free_blocks s3 ! (q - 18) = 1"
     "free_blocks s2 ! (q - 18) = 1"
    by blast
  with W(1,2) q0 show ?thesis
    unfolding B_def by (auto simp: q_def)
qed

section \<open>Opening an existing file\<close>










section \<open>The empty name and the inactive slots\<close>






section \<open>A directory whose last slot holds a file with the empty name\<close>










end
